theory Spec2Isabelle
  imports Main "HOL-Library.Word" "HOL-Library.Sublist" "HOL-Library.AList"
begin

unbundle bit_operations_syntax

chapter \<open>The model\<close>

section \<open>Python exceptions\<close>

text \<open>
  The exceptions the modelled code raises or lets through, as values: a function that can
  raise returns a sum, \<open>Inl\<close> the exception. \<^verbatim>\<open>ValueError\<close> and the store's
  \<^verbatim>\<open>DuplicateDocumentError\<close> carry their message.
\<close>

datatype py_error =
    StopIteration
  | ValueError string
  | TypeError
  | AttributeError
  | KeyError
  | DuplicateDocumentError string

section \<open>Lookahead iterator (jam/struct/core/struct.py)\<close>

text \<open>
  \<^verbatim>\<open>NIterator\<close> wraps a Python iterator. The underlying iterator over a finite sequence is
  the list of the elements it has not yielded yet: \<^verbatim>\<open>next(self.it)\<close> pops the head and
  raises \<^verbatim>\<open>StopIteration\<close> on the empty list, which stays empty.

  The attribute \<^verbatim>\<open>_has_next\<close> is one of Python's \<^verbatim>\<open>None\<close>, \<^verbatim>\<open>False\<close>, \<^verbatim>\<open>True\<close>: a
  \<open>bool option\<close>. The attribute \<^verbatim>\<open>_the_next\<close> is \<^verbatim>\<open>None\<close> or an element: an
  \<open>'a option\<close>, and so is the value \<^verbatim>\<open>next()\<close> returns (it hands out \<^verbatim>\<open>_the_next\<close>).
\<close>

record 'a NIterator =
  it :: "'a list"
  priv_has_next :: "bool option"
  priv_the_next :: "'a option"

definition NIterator_init :: "'a list \<Rightarrow> 'a NIterator" where
  "NIterator_init xs = \<lparr>it = xs, priv_has_next = None, priv_the_next = None\<rparr>"

text \<open>
  \<^verbatim>\<open>next\<close>: when \<^verbatim>\<open>_has_next\<close> is truthy the cached element is the result, otherwise the
  underlying iterator is advanced; a \<^verbatim>\<open>StopIteration\<close> leaves the object as it was (the
  assignment \<^verbatim>\<open>self._has_next = None\<close> is not reached).
\<close>

definition nit_next :: "'a NIterator \<Rightarrow> 'a NIterator \<times> (py_error + 'a option)" where
  "nit_next s =
     (if priv_has_next s = Some True
      then (s\<lparr>priv_has_next := None\<rparr>, Inr (priv_the_next s))
      else (case it s of
              [] \<Rightarrow> (s, Inl StopIteration)
            | x # xs \<Rightarrow> (s\<lparr>it := xs, priv_has_next := None\<rparr>, Inr (Some x))))"

definition has_next :: "'a NIterator \<Rightarrow> 'a NIterator \<times> bool" where
  "has_next s =
     (case priv_has_next s of
        None \<Rightarrow>
          (case it s of
             [] \<Rightarrow> (s\<lparr>priv_has_next := Some False\<rparr>, False)
           | x # xs \<Rightarrow> (s\<lparr>it := xs, priv_the_next := Some x, priv_has_next := Some True\<rparr>, True))
      | Some b \<Rightarrow> (s, b))"

text \<open>A client of the iterator is a sequence of calls; each call yields an observation.\<close>

datatype call = Next | HasNext

datatype 'a obs = Returned "'a option" | Raised py_error | Answered bool

fun run_calls :: "call list \<Rightarrow> 'a NIterator \<Rightarrow> 'a NIterator \<times> 'a obs list" where
  "run_calls [] s = (s, [])"
| "run_calls (Next # cs) s =
     (let (s1, r) = nit_next s;
          (s2, os) = run_calls cs s1
      in (s2, (case r of Inl e \<Rightarrow> Raised e | Inr v \<Rightarrow> Returned v) # os))"
| "run_calls (HasNext # cs) s =
     (let (s1, b) = has_next s;
          (s2, os) = run_calls cs s1
      in (s2, Answered b # os))"

text \<open>
  Iterating the sequence directly, in the spec's words: \<^verbatim>\<open>next\<close> yields the elements in
  order and fails once none is left; \<^verbatim>\<open>hasNext\<close> tells whether one is left and consumes
  nothing.
\<close>

fun direct_calls :: "call list \<Rightarrow> 'a list \<Rightarrow> 'a obs list" where
  "direct_calls [] xs = []"
| "direct_calls (Next # cs) [] = Raised StopIteration # direct_calls cs []"
| "direct_calls (Next # cs) (x # xs) = Returned (Some x) # direct_calls cs xs"
| "direct_calls (HasNext # cs) xs = Answered (xs \<noteq> []) # direct_calls cs xs"

text \<open>
  The elements the wrapper still has to hand out: the cached one, if any, then the rest of
  the underlying iterator. The states the constructor and the two methods produce keep
  \<open>nit_inv\<close>: a truthy flag comes with a cached element, a false flag with an exhausted
  iterator.
\<close>

definition pending :: "'a NIterator \<Rightarrow> 'a list" where
  "pending s =
     (case (priv_has_next s, priv_the_next s) of
        (Some True, Some x) \<Rightarrow> x # it s
      | _ \<Rightarrow> it s)"

definition nit_inv :: "'a NIterator \<Rightarrow> bool" where
  "nit_inv s =
     (case priv_has_next s of
        None \<Rightarrow> True
      | Some True \<Rightarrow> priv_the_next s \<noteq> None
      | Some False \<Rightarrow> it s = [])"

text \<open>The number of elements a sequence of observations shows as returned.\<close>

fun n_returned :: "'a obs list \<Rightarrow> nat" where
  "n_returned [] = 0"
| "n_returned (Returned v # os) = Suc (n_returned os)"
| "n_returned (Raised e # os) = n_returned os"
| "n_returned (Answered b # os) = n_returned os"

section \<open>Python built-ins and library functions the code calls\<close>

text \<open>
  Python's \<^verbatim>\<open>str\<close> on the typed values the code formats: \<^verbatim>\<open>str(True)\<close> is \<^verbatim>\<open>'True'\<close>,
  \<^verbatim>\<open>str(None)\<close> is \<^verbatim>\<open>'None'\<close>, an \<^verbatim>\<open>int\<close> is written in decimal with a leading minus sign
  when negative, and \<^verbatim>\<open>str\<close> of a \<^verbatim>\<open>str\<close> is the string itself. A Python \<^verbatim>\<open>str\<close> is modelled
  by the list of the bytes of its UTF-8 encoding, which is what the hash functions read.
\<close>

definition hex_digit :: "int \<Rightarrow> char" where
  "hex_digit n = ''0123456789abcdef'' ! nat (n mod 16)"

definition dec_digit :: "int \<Rightarrow> char" where
  "dec_digit n = ''0123456789'' ! nat (n mod 10)"

function dec_str :: "int \<Rightarrow> string" where
  "dec_str n = (if n < 10 then [dec_digit n] else dec_str (n div 10) @ [dec_digit (n mod 10)])"
  by pat_completeness auto

termination
  by (relation "measure nat") auto

declare dec_str.simps [simp del]

definition str_int :: "int \<Rightarrow> string" where
  "str_int i = (if i < 0 then CHR ''-'' # dec_str (- i) else dec_str i)"

definition str_bool :: "bool \<Rightarrow> string" where
  "str_bool b = (if b then ''True'' else ''False'')"

definition str_opt :: "('a \<Rightarrow> string) \<Rightarrow> 'a option \<Rightarrow> string" where
  "str_opt f v = (case v of None \<Rightarrow> ''None'' | Some x \<Rightarrow> f x)"

text \<open>
  The format specification \<^verbatim>\<open>x\<close> writes a non-negative integer in lower-case hexadecimal
  with no leading zeros (one digit for zero); \<^verbatim>\<open>02x\<close> pads the result with zeros on the
  left up to the minimum width 2. \<^verbatim>\<open>%032x\<close> does the same with the minimum width 32.
\<close>

function hex_str :: "int \<Rightarrow> string" where
  "hex_str n = (if n < 16 then [hex_digit n] else hex_str (n div 16) @ [hex_digit (n mod 16)])"
  by pat_completeness auto

termination
  by (relation "measure nat") auto

declare hex_str.simps [simp del]

definition format_zero_x :: "nat \<Rightarrow> int \<Rightarrow> string" where
  "format_zero_x width n = (let s = hex_str n in replicate (width - length s) (CHR ''0'') @ s)"

definition format_02x :: "int \<Rightarrow> string" where
  "format_02x n = format_zero_x 2 n"

text \<open>
  The standard library's \<^verbatim>\<open>uuid\<close> module. A \<^verbatim>\<open>UUID\<close> is a 128-bit integer. Built with a
  version, \<^verbatim>\<open>UUID.__init__\<close> sets the variant and version bits:
  \<^verbatim>\<open>int &= ~(0xc000 << 48); int |= 0x8000 << 48; int &= ~(0xf000 << 64); int |= version << 76\<close>.
  \<^verbatim>\<open>str\<close> of a UUID is \<^verbatim>\<open>'%032x' % int\<close> cut into groups of 8, 4, 4, 4 and 12 digits joined
  by hyphens. \<^verbatim>\<open>uuid4()\<close> is \<^verbatim>\<open>UUID(bytes=os.urandom(16), version=4)\<close>: the 16 random bytes
  are an argument of the model.
\<close>

definition UUID_version :: "128 word \<Rightarrow> 128 word \<Rightarrow> 128 word" where
  "UUID_version i version =
     (let i1 = i AND NOT (push_bit 48 0xc000);
          i2 = i1 OR push_bit 48 0x8000;
          i3 = i2 AND NOT (push_bit 64 0xf000)
      in i3 OR push_bit 76 version)"

definition UUID_str :: "128 word \<Rightarrow> string" where
  "UUID_str u =
     (let hex = format_zero_x 32 (uint u)
      in take 8 hex @ ''-'' @ take 4 (drop 8 hex) @ ''-'' @ take 4 (drop 12 hex) @ ''-''
         @ take 4 (drop 16 hex) @ ''-'' @ drop 20 hex)"

definition uuid4 :: "128 word \<Rightarrow> 128 word" where
  "uuid4 urandom16 = UUID_version urandom16 4"

text \<open>
  \<^verbatim>\<open>mmh3.hash128(key, signed=False)\<close> with the default seed 0: the MurmurHash3 x64 128-bit
  function of the third-party package \<^verbatim>\<open>mmh3\<close>, written out from the published algorithm.
  The key is read in blocks of 16 bytes, each as two little-endian 64-bit words; the
  remaining bytes are the tail; the two state words are mixed with the length and
  finalised. The package returns the 16 bytes of \<open>(h1, h2)\<close> as a little-endian unsigned
  integer, that is \<open>h1 + 2^64 * h2\<close>.
\<close>

definition rotl64 :: "64 word \<Rightarrow> nat \<Rightarrow> 64 word" where
  "rotl64 x r = push_bit r x OR drop_bit (64 - r) x"

definition fmix64 :: "64 word \<Rightarrow> 64 word" where
  "fmix64 k0 =
     (let k1 = k0 XOR drop_bit 33 k0;
          k2 = k1 * 0xff51afd7ed558ccd;
          k3 = k2 XOR drop_bit 33 k2;
          k4 = k3 * 0xc4ceb9fe1a85ec53
      in k4 XOR drop_bit 33 k4)"

definition le64 :: "string \<Rightarrow> 64 word" where
  "le64 bs = foldr (\<lambda>b w. of_nat (of_char b) OR push_bit 8 w) bs 0"

definition mmh3_c1 :: "64 word" where
  "mmh3_c1 = 0x87c37b91114253d5"

definition mmh3_c2 :: "64 word" where
  "mmh3_c2 = 0x4cf5ad432745937f"

definition mix_k1 :: "64 word \<Rightarrow> 64 word" where
  "mix_k1 k = rotl64 (k * mmh3_c1) 31 * mmh3_c2"

definition mix_k2 :: "64 word \<Rightarrow> 64 word" where
  "mix_k2 k = rotl64 (k * mmh3_c2) 33 * mmh3_c1"

fun mmh3_body :: "string \<Rightarrow> 64 word \<times> 64 word \<Rightarrow> (64 word \<times> 64 word) \<times> string" where
  "mmh3_body bs (h1, h2) =
     (if 16 \<le> length bs then
        (let k1 = le64 (take 8 bs);
             k2 = le64 (take 8 (drop 8 bs));
             h1a = h1 XOR mix_k1 k1;
             h1b = (rotl64 h1a 27 + h2) * 5 + 0x52dce729;
             h2a = h2 XOR mix_k2 k2;
             h2b = (rotl64 h2a 31 + h1b) * 5 + 0x38495ab5
         in mmh3_body (drop 16 bs) (h1b, h2b))
      else ((h1, h2), bs))"

declare mmh3_body.simps [simp del]

definition mmh3_tail :: "string \<Rightarrow> 64 word \<times> 64 word \<Rightarrow> 64 word \<times> 64 word" where
  "mmh3_tail rest h =
     (let h2 = (if 8 < length rest then snd h XOR mix_k2 (le64 (drop 8 rest)) else snd h);
          h1 = (if 0 < length rest then fst h XOR mix_k1 (le64 (take 8 rest)) else fst h)
      in (h1, h2))"

definition mmh3_final :: "nat \<Rightarrow> 64 word \<times> 64 word \<Rightarrow> 64 word \<times> 64 word" where
  "mmh3_final len h =
     (let h1 = fst h XOR of_nat len;
          h2 = snd h XOR of_nat len;
          h1a = h1 + h2;
          h2a = h2 + h1a;
          h1b = fmix64 h1a;
          h2b = fmix64 h2a;
          h1c = h1b + h2b;
          h2c = h2b + h1c
      in (h1c, h2c))"

definition mmh3_words :: "string \<Rightarrow> 64 word \<times> 64 word" where
  "mmh3_words key =
     (let (h, rest) = mmh3_body key (0, 0)
      in mmh3_final (length key) (mmh3_tail rest h))"

definition mmh3_hash128 :: "string \<Rightarrow> int" where
  "mmh3_hash128 key = uint (fst (mmh3_words key)) + 2 ^ 64 * uint (snd (mmh3_words key))"

section \<open>Label (jam/ir/document_store/base/store.py)\<close>

text \<open>
  The fields have the types the constructor declares. The attribute \<^verbatim>\<open>id\<close> is
  \<open>label_id\<close> here.
\<close>

record Label =
  label_id :: string
  created_at :: "string option"
  updated_at :: "string option"
  question :: string
  answer :: string
  is_correct_answer :: bool
  is_correct_document :: bool
  origin :: string
  document_id :: "string option"
  offset_start_in_doc :: "int option"
  no_answer :: "bool option"
  model_id :: "int option"

text \<open>
  \<^verbatim>\<open>Label.__init__\<close>. The test \<^verbatim>\<open>if id:\<close> is Python truthiness: \<^verbatim>\<open>None\<close> and the empty
  string are falsy. The first argument is the random draw of the \<^verbatim>\<open>uuid4()\<close> call.
\<close>

definition Label_init ::
  "128 word \<Rightarrow> string \<Rightarrow> string \<Rightarrow> bool \<Rightarrow> bool \<Rightarrow> string \<Rightarrow> string option \<Rightarrow> string option
   \<Rightarrow> int option \<Rightarrow> bool option \<Rightarrow> int option \<Rightarrow> string option \<Rightarrow> string option \<Rightarrow> Label" where
  "Label_init urandom16 q a ica icd orig ident did off na mid cr up =
     \<lparr>label_id = (case ident of
                    None \<Rightarrow> UUID_str (uuid4 urandom16)
                  | Some i \<Rightarrow> if i \<noteq> [] then i else UUID_str (uuid4 urandom16)),
      created_at = cr, updated_at = up, question = q, answer = a,
      is_correct_answer = ica, is_correct_document = icd, origin = orig,
      document_id = did, offset_start_in_doc = off, no_answer = na, model_id = mid\<rparr>"



section \<open>Python values and objects\<close>

text \<open>
  A Python value is \<^verbatim>\<open>None\<close>, an immutable atom (a \<^verbatim>\<open>bool\<close>, an \<^verbatim>\<open>int\<close>, a \<^verbatim>\<open>float\<close> given
  by the 64 bits of its IEEE double, a \<^verbatim>\<open>str\<close>) or a reference to a mutable object of the
  store: a \<^verbatim>\<open>dict\<close> with string keys, kept as the list of its items in insertion order, or
  a sequence of values (a \<^verbatim>\<open>list\<close>, an array). The store is the list of the objects
  allocated so far, an address is an index into it, and allocation appends.
\<close>

type_synonym addr = nat

datatype val =
    VNone
  | VBool bool
  | VInt int
  | VFloat "64 word"
  | VStr string
  | VRef addr

datatype obj =
    ODict "(string \<times> val) list"
  | OList "val list"

type_synonym store = "obj list"

text \<open>
  Truthiness: \<^verbatim>\<open>None\<close>, \<^verbatim>\<open>False\<close>, zero (a float is zero when all its bits but the sign are),
  the empty string and an empty container are falsy. An address outside the store does not
  occur in a Python program; the model gives it a value so that every function is total.
\<close>

definition truthy :: "store \<Rightarrow> val \<Rightarrow> bool" where
  "truthy h v =
     (case v of
        VNone \<Rightarrow> False
      | VBool b \<Rightarrow> b
      | VInt i \<Rightarrow> i \<noteq> 0
      | VFloat w \<Rightarrow> push_bit 1 w \<noteq> 0
      | VStr s \<Rightarrow> s \<noteq> []
      | VRef a \<Rightarrow>
          (if a < length h
           then (case h ! a of ODict items \<Rightarrow> items \<noteq> [] | OList xs \<Rightarrow> xs \<noteq> [])
           else True))"

text \<open>Allocation of a new object: it is appended, and its address is the old length.\<close>

definition alloc :: "store \<Rightarrow> obj \<Rightarrow> store \<times> val" where
  "alloc h ob = (h @ [ob], VRef (length h))"

text \<open>
  \<^verbatim>\<open>x.items()\<close> (and \<^verbatim>\<open>x.keys()\<close>) exist on a \<^verbatim>\<open>dict\<close> only; \<^verbatim>\<open>x[k]\<close> with a string key reads
  a \<^verbatim>\<open>dict\<close> and raises \<^verbatim>\<open>KeyError\<close> on a missing key; \<^verbatim>\<open>x[k] = v\<close> with a string key writes
  a \<^verbatim>\<open>dict\<close> in place, keeping the position of a key already present and appending a new
  one (\<open>AList.update\<close>). On any other value these raise \<^verbatim>\<open>AttributeError\<close> or \<^verbatim>\<open>TypeError\<close>.
\<close>

definition dict_items :: "store \<Rightarrow> val \<Rightarrow> py_error + (string \<times> val) list" where
  "dict_items h x =
     (case x of
        VRef a \<Rightarrow>
          (if a < length h
           then (case h ! a of ODict items \<Rightarrow> Inr items | OList xs \<Rightarrow> Inl AttributeError)
           else Inl AttributeError)
      | _ \<Rightarrow> Inl AttributeError)"

definition getitem :: "store \<Rightarrow> val \<Rightarrow> string \<Rightarrow> py_error + val" where
  "getitem h x k =
     (case x of
        VRef a \<Rightarrow>
          (if a < length h
           then (case h ! a of
                   ODict items \<Rightarrow> (case map_of items k of None \<Rightarrow> Inl KeyError | Some v \<Rightarrow> Inr v)
                 | OList xs \<Rightarrow> Inl TypeError)
           else Inl TypeError)
      | _ \<Rightarrow> Inl TypeError)"

definition setitem :: "store \<Rightarrow> val \<Rightarrow> string \<Rightarrow> val \<Rightarrow> py_error + store" where
  "setitem h x k v =
     (case x of
        VRef a \<Rightarrow>
          (if a < length h
           then (case h ! a of
                   ODict items \<Rightarrow> Inr (h[a := ODict (AList.update k v items)])
                 | OList xs \<Rightarrow> Inl TypeError)
           else Inl TypeError)
      | _ \<Rightarrow> Inl TypeError)"

text \<open>
  \<^verbatim>\<open>copy.deepcopy\<close> returns a new object graph of the same shape as the one its argument
  reaches, sharing and cycles included, and leaves the original alone. The model copies
  every object of the store, the copy of the object at address \<open>a\<close> going to address
  \<open>a + length h\<close> with its references moved likewise; the copies of objects the argument
  does not reach are referred to by nothing.
\<close>

definition shift_val :: "nat \<Rightarrow> val \<Rightarrow> val" where
  "shift_val n v = (case v of VRef a \<Rightarrow> VRef (a + n) | _ \<Rightarrow> v)"

definition shift_obj :: "nat \<Rightarrow> obj \<Rightarrow> obj" where
  "shift_obj n ob =
     (case ob of
        ODict items \<Rightarrow> ODict (map (\<lambda>(k, v). (k, shift_val n v)) items)
      | OList xs \<Rightarrow> OList (map (shift_val n) xs))"

definition deepcopy :: "store \<Rightarrow> val \<Rightarrow> store \<times> val" where
  "deepcopy h v = (h @ map (shift_obj (length h)) h, shift_val (length h) v)"

text \<open>
  The library functions that stay arguments of the model: the MD5 and SHA-1 digests of
  \<^verbatim>\<open>hashlib\<close>, as the big-endian integer of the digest's bytes, and \<^verbatim>\<open>str\<close> of a value that
  is neither \<^verbatim>\<open>None\<close> nor a \<^verbatim>\<open>bool\<close>, an \<^verbatim>\<open>int\<close> or a \<^verbatim>\<open>str\<close>.
\<close>

record pylib =
  md5_digest :: "string \<Rightarrow> 128 word"
  sha1_digest :: "string \<Rightarrow> 160 word"
  str_other :: "store \<Rightarrow> val \<Rightarrow> string"

text \<open>
  \<^verbatim>\<open>uuid.uuid3(namespace, name)\<close> is
  \<^verbatim>\<open>UUID(bytes=md5(namespace.bytes + bytes(name, "utf-8")).digest()[:16], version=3)\<close> and
  \<^verbatim>\<open>uuid.uuid5\<close> the same with \<^verbatim>\<open>sha1\<close> and version 5; the first 16 of the 20 bytes of a
  SHA-1 digest are its upper 128 bits. \<^verbatim>\<open>namespace.bytes\<close> are the 16 bytes of the integer,
  big-endian.
\<close>

definition NAMESPACE_DNS :: "128 word" where
  "NAMESPACE_DNS = 0x6ba7b8109dad11d180b400c04fd430c8"

definition UUID_bytes :: "128 word \<Rightarrow> string" where
  "UUID_bytes u = map (\<lambda>i. char_of (uint (drop_bit (8 * i) u))) (rev [0..<16])"

definition uuid3 :: "pylib \<Rightarrow> 128 word \<Rightarrow> string \<Rightarrow> 128 word" where
  "uuid3 lib namespace name = UUID_version (md5_digest lib (UUID_bytes namespace @ name)) 3"

definition uuid5 :: "pylib \<Rightarrow> 128 word \<Rightarrow> string \<Rightarrow> 128 word" where
  "uuid5 lib namespace name =
     UUID_version (ucast (drop_bit 32 (sha1_digest lib (UUID_bytes namespace @ name)))) 5"

definition py_str :: "pylib \<Rightarrow> store \<Rightarrow> val \<Rightarrow> string" where
  "py_str lib h v =
     (case v of
        VNone \<Rightarrow> ''None''
      | VBool b \<Rightarrow> str_bool b
      | VInt i \<Rightarrow> str_int i
      | VStr s \<Rightarrow> s
      | _ \<Rightarrow> str_other lib h v)"

section \<open>Document (jam/ir/document_store/base/store.py)\<close>

text \<open>
  The attributes of a Document, in the order \<^verbatim>\<open>__init__\<close> assigns them (the order of
  \<^verbatim>\<open>__dict__\<close>). \<^verbatim>\<open>text\<close>, \<^verbatim>\<open>question\<close> and \<^verbatim>\<open>id\<close> are \<open>doc_text\<close>, \<open>doc_question\<close> and
  \<open>doc_id\<close> here. Python checks no type, so every attribute but \<^verbatim>\<open>id\<close> holds whatever
  value was passed; \<^verbatim>\<open>id\<close> is always the result of \<^verbatim>\<open>_get_id\<close> or of \<^verbatim>\<open>str\<close>, a string.
\<close>

record Document =
  doc_text :: val
  score :: val
  probability :: val
  doc_question :: val
  meta :: val
  embedding :: val
  doc_id :: string

text \<open>
  \<^verbatim>\<open>Document._get_id\<close>. \<^verbatim>\<open>mmh3.hash128\<close> and \<^verbatim>\<open>bytes(name, "utf-8")\<close> raise \<^verbatim>\<open>TypeError\<close> when
  the text is not a string. \<^verbatim>\<open>id_hash_keys\<close> is not used.
\<close>

definition get_id :: "pylib \<Rightarrow> val \<Rightarrow> val \<Rightarrow> val \<Rightarrow> py_error + string" where
  "get_id lib self_text id_hash_keys uuid_type =
     (if uuid_type = VNone then
        (case self_text of VStr t \<Rightarrow> Inr (format_02x (mmh3_hash128 t)) | _ \<Rightarrow> Inl TypeError)
      else if uuid_type = VStr ''uuid3'' then
        (case self_text of
           VStr t \<Rightarrow> Inr (UUID_str (uuid3 lib NAMESPACE_DNS t))
         | _ \<Rightarrow> Inl TypeError)
      else if uuid_type = VStr ''uuid5'' then
        (case self_text of
           VStr t \<Rightarrow> Inr (UUID_str (uuid5 lib NAMESPACE_DNS t))
         | _ \<Rightarrow> Inl TypeError)
      else Inl (ValueError (''Choose either '' @ [CHR 0x22] @ ''uuid3'' @ [CHR 0x22] @ '' or ''
                              @ [CHR 0x22] @ ''uuid5'' @ [CHR 0x22] @ '' or None'')))"

text \<open>
  \<^verbatim>\<open>Document.__init__\<close>, with the arguments in the order of the signature. \<^verbatim>\<open>meta or {}\<close>
  allocates a new empty \<^verbatim>\<open>dict\<close> when \<^verbatim>\<open>meta\<close> is falsy. The result is the store after the
  call and the error raised or the Document built.
\<close>

definition Document_init ::
  "pylib \<Rightarrow> store \<Rightarrow> val \<Rightarrow> val \<Rightarrow> val \<Rightarrow> val \<Rightarrow> val \<Rightarrow> val \<Rightarrow> val \<Rightarrow> val \<Rightarrow> val
   \<Rightarrow> store \<times> (py_error + Document)" where
  "Document_init lib h txt ident sc prob quest met emb id_hash_keys uuid_type =
     (let (h1, met1) = (if truthy h met then (h, met) else alloc h (ODict []))
      in case (if ident = VNone then get_id lib txt id_hash_keys uuid_type
               else Inr (py_str lib h1 ident)) of
           Inl e \<Rightarrow> (h1, Inl e)
         | Inr i \<Rightarrow>
             (h1, Inr \<lparr>doc_text = txt, score = sc, probability = prob, doc_question = quest,
                       meta = met1, embedding = emb, doc_id = i\<rparr>))"

text \<open>
  A call \<^verbatim>\<open>cls(**kwargs)\<close>: a keyword that is not a parameter of \<^verbatim>\<open>__init__\<close> and a missing
  \<^verbatim>\<open>text\<close> raise \<^verbatim>\<open>TypeError\<close>; the other parameters default to \<^verbatim>\<open>None\<close>.
\<close>

definition Document_params :: "string list" where
  "Document_params = [''text'', ''id'', ''score'', ''probability'', ''question'', ''meta'',
     ''embedding'', ''id_hash_keys'', ''uuid_type'']"

definition kwarg :: "(string \<times> val) list \<Rightarrow> string \<Rightarrow> val" where
  "kwarg kwargs k = (case map_of kwargs k of None \<Rightarrow> VNone | Some v \<Rightarrow> v)"

definition Document_call ::
  "pylib \<Rightarrow> store \<Rightarrow> (string \<times> val) list \<Rightarrow> store \<times> (py_error + Document)" where
  "Document_call lib h kwargs =
     (if \<not> set (map fst kwargs) \<subseteq> set Document_params then (h, Inl TypeError)
      else case map_of kwargs ''text'' of
             None \<Rightarrow> (h, Inl TypeError)
           | Some txt \<Rightarrow>
               Document_init lib h txt (kwarg kwargs ''id'') (kwarg kwargs ''score'')
                 (kwarg kwargs ''probability'') (kwarg kwargs ''question'')
                 (kwarg kwargs ''meta'') (kwarg kwargs ''embedding'')
                 (kwarg kwargs ''id_hash_keys'') (kwarg kwargs ''uuid_type''))"

text \<open>
  \<^verbatim>\<open>Document.to_dict\<close>. The field map is a \<^verbatim>\<open>dict\<close> from strings to strings that is only
  read: the list of its items. \<open>Document_dict\<close> is \<^verbatim>\<open>self.__dict__.items()\<close>. The result is
  a new \<^verbatim>\<open>dict\<close> in the store.
\<close>

definition Document_dict :: "Document \<Rightarrow> (string \<times> val) list" where
  "Document_dict self =
     [(''text'', doc_text self), (''score'', score self), (''probability'', probability self),
      (''question'', doc_question self), (''meta'', meta self), (''embedding'', embedding self),
      (''id'', VStr (doc_id self))]"

definition invert_field_map :: "(string \<times> string) list \<Rightarrow> (string \<times> string) list" where
  "invert_field_map field_map = fold (\<lambda>(k, v) inv. AList.update v k inv) field_map []"

definition rename :: "(string \<times> string) list \<Rightarrow> string \<Rightarrow> string" where
  "rename inv_field_map k = (case map_of inv_field_map k of None \<Rightarrow> k | Some k1 \<Rightarrow> k1)"

definition to_dict :: "store \<Rightarrow> Document \<Rightarrow> (string \<times> string) list \<Rightarrow> store \<times> val" where
  "to_dict h self field_map =
     (let inv_field_map = invert_field_map field_map;
          doc = fold (\<lambda>(k, v) d. AList.update (rename inv_field_map k) v d) (Document_dict self) []
      in alloc h (ODict doc))"

text \<open>
  \<^verbatim>\<open>Document.from_dict\<close>, in the order of the source: the deep copy \<^verbatim>\<open>_doc\<close>; the default
  \<^verbatim>\<open>_doc["meta"] = {}\<close> (\<open>ensure_meta\<close>); the two loops; the optional \<^verbatim>\<open>uuid_type\<close> and the
  call \<^verbatim>\<open>cls(**_new_doc)\<close> (\<open>construct\<close>). The first loop (\<open>copy_additional\<close>) writes every key that is
  neither an init argument nor a key of the field map into the object \<^verbatim>\<open>_doc["meta"]\<close>,
  which is read anew at every step. The second loop (\<open>remove_additional\<close>) builds
  \<^verbatim>\<open>_new_doc\<close>, a local \<^verbatim>\<open>dict\<close> that only the call \<^verbatim>\<open>cls(**_new_doc)\<close> reads: the list of its
  items. Neither loop changes the keys of \<^verbatim>\<open>_doc\<close>, so each runs over the items \<^verbatim>\<open>_doc\<close> has
  when it starts.
\<close>

definition init_args :: "string list" where
  "init_args = [''text'', ''id'', ''score'', ''probability'', ''question'', ''meta'',
     ''embedding'']"

fun copy_additional ::
  "(string \<times> string) list \<Rightarrow> val \<Rightarrow> (string \<times> val) list \<Rightarrow> store \<Rightarrow> store \<times> (py_error + unit)" where
  "copy_additional field_map doc [] h = (h, Inr ())"
| "copy_additional field_map doc ((k, v) # kvs) h =
     (if k \<notin> set init_args \<and> k \<notin> fst ` set field_map then
        (case getitem h doc ''meta'' of
           Inl e \<Rightarrow> (h, Inl e)
         | Inr m \<Rightarrow>
             (case setitem h m k v of
                Inl e \<Rightarrow> (h, Inl e)
              | Inr h1 \<Rightarrow> copy_additional field_map doc kvs h1))
      else copy_additional field_map doc kvs h)"

fun remove_additional ::
  "(string \<times> string) list \<Rightarrow> (string \<times> val) list \<Rightarrow> (string \<times> val) list
   \<Rightarrow> (string \<times> val) list" where
  "remove_additional field_map [] new_doc = new_doc"
| "remove_additional field_map ((k, v) # kvs) new_doc =
     (if k \<in> set init_args then remove_additional field_map kvs (AList.update k v new_doc)
      else (case map_of field_map k of
              Some k1 \<Rightarrow> remove_additional field_map kvs (AList.update k1 v new_doc)
            | None \<Rightarrow> remove_additional field_map kvs new_doc))"

definition ensure_meta :: "store \<Rightarrow> val \<Rightarrow> (string \<times> val) list \<Rightarrow> py_error + store" where
  "ensure_meta h doc items =
     (if ''meta'' \<notin> fst ` set items
      then (let (h1, m) = alloc h (ODict []) in setitem h1 doc ''meta'' m)
      else Inr h)"

definition construct ::
  "pylib \<Rightarrow> store \<Rightarrow> (string \<times> string) list \<Rightarrow> (string \<times> val) list \<Rightarrow> val
   \<Rightarrow> store \<times> (py_error + Document)" where
  "construct lib h field_map items uuid_type =
     (let new_doc = remove_additional field_map items [];
          new_doc1 = (if truthy h uuid_type
                      then AList.update ''uuid_type'' uuid_type new_doc
                      else new_doc)
      in Document_call lib h new_doc1)"

definition from_dict ::
  "pylib \<Rightarrow> store \<Rightarrow> val \<Rightarrow> (string \<times> string) list \<Rightarrow> val \<Rightarrow> store \<times> (py_error + Document)" where
  "from_dict lib h dict field_map uuid_type =
     (let (h1, doc) = deepcopy h dict in
      case dict_items h1 doc of
        Inl e \<Rightarrow> (h1, Inl e)
      | Inr items0 \<Rightarrow>
          (case ensure_meta h1 doc items0 of
             Inl e \<Rightarrow> (h1, Inl e)
           | Inr h2 \<Rightarrow>
               (case dict_items h2 doc of
                  Inl e \<Rightarrow> (h2, Inl e)
                | Inr items1 \<Rightarrow>
                    (case copy_additional field_map doc items1 h2 of
                       (h3, Inl e) \<Rightarrow> (h3, Inl e)
                     | (h3, Inr u) \<Rightarrow>
                         (case dict_items h3 doc of
                            Inl e \<Rightarrow> (h3, Inl e)
                          | Inr items2 \<Rightarrow> construct lib h3 field_map items2 uuid_type)))))"

text \<open>The id of the Document a construction returns, or the error it raised.\<close>

definition result_id :: "store \<times> (py_error + Document) \<Rightarrow> py_error + string" where
  "result_id r = (case snd r of Inl e \<Rightarrow> Inl e | Inr d \<Rightarrow> Inr (doc_id d))"

text \<open>Library arguments used to instantiate the theorems at concrete inputs.\<close>

definition example_lib :: pylib where
  "example_lib = \<lparr>md5_digest = (\<lambda>bs. 0), sha1_digest = (\<lambda>bs. 0), str_other = (\<lambda>h v. [])\<rparr>"

text \<open>
  For the effect of \<^verbatim>\<open>from_dict\<close> on the store: \<open>extends h0 h\<close> says that the store \<open>h\<close>
  still begins with the objects of \<open>h0\<close>, unchanged, and that the objects allocated since
  refer only to objects allocated since.
\<close>

definition val_ge :: "nat \<Rightarrow> val \<Rightarrow> bool" where
  "val_ge n v = (case v of VRef a \<Rightarrow> n \<le> a | _ \<Rightarrow> True)"

definition obj_ge :: "nat \<Rightarrow> obj \<Rightarrow> bool" where
  "obj_ge n ob =
     (case ob of
        ODict items \<Rightarrow> list_all (\<lambda>kv. val_ge n (snd kv)) items
      | OList xs \<Rightarrow> list_all (val_ge n) xs)"

definition extends :: "store \<Rightarrow> store \<Rightarrow> bool" where
  "extends h0 h = (take (length h0) h = h0 \<and> list_all (obj_ge (length h0)) (drop (length h0) h))"

text \<open>
  For comparing Documents field by field: the value a store holds at a reference, read
  down to a depth \<open>n\<close> (\<open>None\<close> when the value is deeper). Two values are equal, as
  Python's \<^verbatim>\<open>==\<close> on strings, numbers, lists and dicts has it, when they read alike at
  every depth.
\<close>

datatype pyval =
    PNone
  | PBool bool
  | PInt int
  | PFloat "64 word"
  | PStr string
  | PDict "(string \<times> pyval) list"
  | PList "pyval list"

fun read_val :: "nat \<Rightarrow> store \<Rightarrow> val \<Rightarrow> pyval option" where
  "read_val n h VNone = Some PNone"
| "read_val n h (VBool b) = Some (PBool b)"
| "read_val n h (VInt i) = Some (PInt i)"
| "read_val n h (VFloat w) = Some (PFloat w)"
| "read_val n h (VStr s) = Some (PStr s)"
| "read_val 0 h (VRef a) = None"
| "read_val (Suc n) h (VRef a) =
     (if a < length h then
        (case h ! a of
           ODict items \<Rightarrow>
             map_option PDict (those (map (\<lambda>kv. map_option (Pair (fst kv)) (read_val n h (snd kv))) items))
         | OList xs \<Rightarrow> map_option PList (those (map (read_val n h) xs)))
      else None)"

definition read_doc :: "nat \<Rightarrow> store \<Rightarrow> Document \<Rightarrow> pyval option list" where
  "read_doc n h d = map (read_val n h) (map snd (Document_dict d))"

text \<open>
  The stores of a Python program hold no reference to an object that does not exist:
  \<open>closed_store\<close>. A Document as \<^verbatim>\<open>__init__\<close> leaves it has a \<^verbatim>\<open>meta\<close> that is truthy or
  an empty \<^verbatim>\<open>dict\<close> (\<^verbatim>\<open>meta or {}\<close>): \<open>doc_ok\<close>.
\<close>

definition val_lt :: "nat \<Rightarrow> val \<Rightarrow> bool" where
  "val_lt n v = (case v of VRef a \<Rightarrow> a < n | _ \<Rightarrow> True)"

definition obj_lt :: "nat \<Rightarrow> obj \<Rightarrow> bool" where
  "obj_lt n ob =
     (case ob of
        ODict items \<Rightarrow> list_all (\<lambda>kv. val_lt n (snd kv)) items
      | OList xs \<Rightarrow> list_all (val_lt n) xs)"

definition closed_store :: "store \<Rightarrow> bool" where
  "closed_store h = list_all (obj_lt (length h)) h"

definition doc_ok :: "store \<Rightarrow> Document \<Rightarrow> bool" where
  "doc_ok h d =
     (list_all (val_lt (length h)) (map snd (Document_dict d))
      \<and> (truthy h (meta d) \<or> (case meta d of VRef m \<Rightarrow> h ! m = ODict [] | _ \<Rightarrow> False)))"

text \<open>
  What the second loop of \<^verbatim>\<open>from_dict\<close> does with a key: an init argument keeps its name,
  a key of the field map gets the name the map gives, any other key is left out. The
  first loop folds the keys that are \<open>unknown\<close>.
\<close>

definition target :: "(string \<times> string) list \<Rightarrow> string \<Rightarrow> string option" where
  "target field_map k = (if k \<in> set init_args then Some k else map_of field_map k)"

definition unknown :: "(string \<times> string) list \<Rightarrow> string \<Rightarrow> bool" where
  "unknown fm k = (k \<notin> set init_args \<and> k \<notin> fst ` set fm)"

text \<open>A store, a Document and an input mapping used to instantiate the theorems.\<close>

definition example_store :: store where
  "example_store = [ODict [(''a'', VStr ''1'')]]"

definition example_doc :: Document where
  "example_doc = \<lparr>doc_text = VStr ''t'', score = VInt 1, probability = VNone,
     doc_question = VNone, meta = VRef 0, embedding = VNone, doc_id = ''i''\<rparr>"

definition example_mapping :: store where
  "example_mapping =
     [ODict [(''text'', VStr ''t''), (''id'', VStr ''7''), (''meta'', VRef 1), (''m'', VRef 2),
             (''x'', VInt 5)],
      ODict [],
      ODict [(''a'', VStr ''1'')]]"

section \<open>Duplicate handling of the document store\<close>

text \<open>
  \<^verbatim>\<open>BaseDocStore\<close>: the default index of the store and the abstract method
  \<^verbatim>\<open>get_documents_by_id(ids, index)\<close>, which a backend implements; it returns the documents
  it found or raises.
\<close>

record BaseDocStore =
  index :: "string option"
  get_documents_by_id :: "string list \<Rightarrow> string option \<Rightarrow> py_error + Document list"

text \<open>
  Modelled from the spec: \<^verbatim>\<open>_drop_duplicate_documents\<close> is called by
  \<^verbatim>\<open>_handle_duplicate_documents\<close> and is not defined in the source. The spec: "Deduplicate
  within the incoming batch by id, keeping the first occurrence encountered (stable,
  input-order preserving)". \<open>seen\<close> holds the ids encountered so far.
\<close>

fun drop_duplicates_seen :: "string list \<Rightarrow> Document list \<Rightarrow> Document list" where
  "drop_duplicates_seen seen [] = []"
| "drop_duplicates_seen seen (d # ds) =
     (if doc_id d \<in> set seen then drop_duplicates_seen seen ds
      else d # drop_duplicates_seen (doc_id d # seen) ds)"

definition drop_duplicate_documents :: "Document list \<Rightarrow> Document list" where
  "drop_duplicate_documents documents = drop_duplicates_seen [] documents"

text \<open>\<^verbatim>\<open>sep.join(xs)\<close> and Python's \<^verbatim>\<open>x or y\<close> on optional strings.\<close>

fun join :: "string \<Rightarrow> string list \<Rightarrow> string" where
  "join sep [] = []"
| "join sep [x] = x"
| "join sep (x # y # ys) = x @ sep @ join sep (y # ys)"

definition or_else :: "string option \<Rightarrow> string option \<Rightarrow> string option" where
  "or_else a b = (case a of None \<Rightarrow> b | Some x \<Rightarrow> if x \<noteq> [] then a else b)"

definition duplicate_message :: "string list \<Rightarrow> string option \<Rightarrow> string" where
  "duplicate_message ids_exist_in_db ix =
     ''Document with ids '' @ [CHR 0x27] @ join '', '' ids_exist_in_db @ '' already exists''
     @ '' in index = '' @ [CHR 0x27] @ str_opt (\<lambda>x. x) ix @ [CHR 0x27] @ ''.''"

text \<open>
  \<^verbatim>\<open>_handle_duplicate_documents(self, documents, index, duplicate_documents)\<close>. An error of
  the lookup propagates. The result is the error raised or the list of documents returned.
\<close>

definition handle_duplicate_documents ::
  "BaseDocStore \<Rightarrow> Document list \<Rightarrow> string option \<Rightarrow> string option
   \<Rightarrow> py_error + Document list" where
  "handle_duplicate_documents self documents ix duplicate_documents =
     (let ix1 = or_else ix (index self) in
      if duplicate_documents = Some ''skip'' \<or> duplicate_documents = Some ''fail'' then
        (let documents1 = drop_duplicate_documents documents in
         case get_documents_by_id self (map doc_id documents1) ix1 of
           Inl e \<Rightarrow> Inl e
         | Inr documents_found \<Rightarrow>
             (let ids_exist_in_db = map doc_id documents_found in
              if length ids_exist_in_db > 0 \<and> duplicate_documents = Some ''fail''
              then Inl (DuplicateDocumentError (duplicate_message ids_exist_in_db ix1))
              else Inr (filter (\<lambda>doc. doc_id doc \<notin> set ids_exist_in_db) documents1)))
      else Inr documents)"

text \<open>A document and a store given by what it holds, used to instantiate the theorems.\<close>

definition doc_of :: "string \<Rightarrow> string \<Rightarrow> Document" where
  "doc_of i t = \<lparr>doc_text = VStr t, score = VNone, probability = VNone, doc_question = VNone,
     meta = VNone, embedding = VNone, doc_id = i\<rparr>"

definition store_of :: "Document list \<Rightarrow> BaseDocStore" where
  "store_of stored = \<lparr>index = Some ''document'',
     get_documents_by_id = (\<lambda>ids ix. Inr (filter (\<lambda>d. doc_id d \<in> set ids) stored))\<rparr>"

chapter \<open>The properties\<close>

section \<open>Lookahead iterator (jam/struct/core/struct.py)\<close>

lemma nit_inv_init: "nit_inv (NIterator_init xs)"
  by (simp add: nit_inv_def NIterator_init_def)

lemma pending_init: "pending (NIterator_init xs) = xs"
  by (simp add: pending_def NIterator_init_def)

lemma has_next_inv: "nit_inv s \<Longrightarrow> nit_inv (fst (has_next s))"
  by (auto simp: nit_inv_def has_next_def split: option.splits list.splits bool.splits)

lemma has_next_pending: "nit_inv s \<Longrightarrow> pending (fst (has_next s)) = pending s"
  by (auto simp: nit_inv_def has_next_def pending_def split: option.splits list.splits bool.splits)

lemma has_next_answer: "nit_inv s \<Longrightarrow> snd (has_next s) = (pending s \<noteq> [])"
  by (auto simp: nit_inv_def has_next_def pending_def split: option.splits list.splits bool.splits)

lemma has_next_twice: "has_next (fst (has_next s)) = (fst (has_next s), snd (has_next s))"
  by (auto simp: has_next_def split: option.splits list.splits)

lemma nit_next_inv: "nit_inv s \<Longrightarrow> nit_inv (fst (nit_next s))"
  by (auto simp: nit_inv_def nit_next_def split: option.splits list.splits bool.splits)

lemma nit_next_empty:
  "nit_inv s \<Longrightarrow> pending s = [] \<Longrightarrow> nit_next s = (s, Inl StopIteration)"
  by (auto simp: nit_inv_def nit_next_def pending_def split: option.splits list.splits bool.splits)

lemma nit_next_cons:
  "nit_inv s \<Longrightarrow> pending s = x # xs \<Longrightarrow>
   snd (nit_next s) = Inr (Some x) \<and> pending (fst (nit_next s)) = xs"
  by (auto simp: nit_inv_def nit_next_def pending_def split: option.splits list.splits bool.splits)

lemma run_calls_direct:
  "nit_inv s \<Longrightarrow> snd (run_calls cs s) = direct_calls cs (pending s)"
proof (induction cs arbitrary: s)
  case Nil
  show ?case by simp
next
  case (Cons c cs)
  show ?case
  proof (cases c)
    case HasNext
    have "snd (run_calls cs (fst (has_next s))) = direct_calls cs (pending s)"
      using Cons.IH [OF has_next_inv [OF Cons.prems]] has_next_pending [OF Cons.prems] by simp
    then show ?thesis
      using HasNext has_next_answer [OF Cons.prems] by (simp add: split_beta)
  next
    case Next
    show ?thesis
    proof (cases "pending s")
      case Nil
      then show ?thesis
        using Next Cons.IH [OF Cons.prems] nit_next_empty [OF Cons.prems Nil]
        by (simp add: split_beta)
    next
      case (Cons x xs)
      have "snd (run_calls cs (fst (nit_next s))) = direct_calls cs xs"
        using Cons.IH [OF nit_next_inv [OF Cons.prems]] nit_next_cons [OF Cons.prems Cons]
        by simp
      then show ?thesis
        using Next Cons nit_next_cons [OF Cons.prems Cons] by (simp add: split_beta)
    qed
  qed
qed

lemma run_calls_inv: "nit_inv s \<Longrightarrow> nit_inv (fst (run_calls cs s))"
proof (induction cs arbitrary: s)
  case Nil
  then show ?case by simp
next
  case (Cons c cs)
  then show ?case
    by (cases c) (simp_all add: split_beta has_next_inv nit_next_inv)
qed

lemma run_calls_pending_empty:
  "nit_inv s \<Longrightarrow> pending s = [] \<Longrightarrow> pending (fst (run_calls cs s)) = []"
proof (induction cs arbitrary: s)
  case Nil
  then show ?case by simp
next
  case (Cons c cs)
  show ?case
  proof (cases c)
    case Next
    then show ?thesis
      using Cons.IH [OF Cons.prems] nit_next_empty [OF Cons.prems]
      by (simp add: split_beta)
  next
    case HasNext
    then show ?thesis
      using Cons.IH [OF has_next_inv [OF Cons.prems(1)]] has_next_pending [OF Cons.prems(1)]
        Cons.prems(2)
      by (simp add: split_beta)
  qed
qed

lemma run_calls_pending:
  "nit_inv s \<Longrightarrow>
   pending (fst (run_calls cs s)) = drop (n_returned (snd (run_calls cs s))) (pending s)"
proof (induction cs arbitrary: s)
  case Nil
  then show ?case by simp
next
  case (Cons c cs)
  show ?case
  proof (cases c)
    case HasNext
    then show ?thesis
      using Cons.IH [OF has_next_inv [OF Cons.prems]] has_next_pending [OF Cons.prems]
      by (simp add: split_beta)
  next
    case Next
    show ?thesis
    proof (cases "pending s")
      case Nil
      then show ?thesis
        using Next Cons.IH [OF Cons.prems] nit_next_empty [OF Cons.prems Nil]
        by (simp add: split_beta)
    next
      case (Cons x xs)
      then show ?thesis
        using Next Cons.IH [OF nit_next_inv [OF Cons.prems]] nit_next_cons [OF Cons.prems Cons]
        by (simp add: split_beta)
    qed
  qed
qed

text \<open>
  C6. For a finite sequence \<open>xs\<close> wrapped in the iterator and any sequence \<open>cs\<close> of calls
  made on it so far, with \<open>s\<close> the state reached:
  \<^item> \<^verbatim>\<open>has_next\<close> is idempotent: a second call right after the first leaves the object as
    the first left it and gives the same answer; and it is non-destructive: the elements
    still to be handed out are the same before and after the call;
  \<^item> whatever the interleaving of \<^verbatim>\<open>has_next\<close> and \<^verbatim>\<open>next\<close>, the calls observe what they
    would observe on \<open>xs\<close> iterated directly: \<^verbatim>\<open>next\<close> returns the elements of \<open>xs\<close> in
    order, and the elements still pending are \<open>xs\<close> without the ones returned so far;
  \<^item> \<^verbatim>\<open>has_next\<close> answers whether an element is still pending, and once none is (the
    sequence is exhausted) it answers false after any further calls \<open>cs'\<close>.
\<close>

theorem lookahead_iterator:
  "(let s = fst (run_calls cs (NIterator_init xs)) in
      has_next (fst (has_next s)) = (fst (has_next s), snd (has_next s))
    \<and> pending (fst (has_next s)) = pending s
    \<and> snd (run_calls cs (NIterator_init xs)) = direct_calls cs xs
    \<and> pending s = drop (n_returned (snd (run_calls cs (NIterator_init xs)))) xs
    \<and> snd (has_next s) = (pending s \<noteq> [])
    \<and> (pending s = [] \<longrightarrow> \<not> snd (has_next (fst (run_calls cs' s)))))"
proof -
  define s where "s = fst (run_calls cs (NIterator_init xs))"
  have inv: "nit_inv s"
    unfolding s_def by (rule run_calls_inv [OF nit_inv_init])
  have a: "has_next (fst (has_next s)) = (fst (has_next s), snd (has_next s))"
    by (rule has_next_twice)
  have b: "pending (fst (has_next s)) = pending s"
    by (rule has_next_pending [OF inv])
  have c: "snd (run_calls cs (NIterator_init xs)) = direct_calls cs xs"
    using run_calls_direct [OF nit_inv_init, of cs xs] by (simp add: pending_init)
  have d: "pending s = drop (n_returned (snd (run_calls cs (NIterator_init xs)))) xs"
    unfolding s_def using run_calls_pending [OF nit_inv_init, of cs xs]
    by (simp add: pending_init)
  have e: "snd (has_next s) = (pending s \<noteq> [])"
    by (rule has_next_answer [OF inv])
  have f: "\<not> snd (has_next (fst (run_calls cs' s)))" if "pending s = []"
    using has_next_answer [OF run_calls_inv [OF inv, of cs']]
      run_calls_pending_empty [OF inv that, of cs']
    by simp
  show ?thesis
    unfolding Let_def s_def [symmetric] using a b c d e f by blast
qed

theorem lookahead_iterator_witness:
  "pending (fst (run_calls [HasNext, HasNext, Next, Next, HasNext, Next, HasNext]
      (NIterator_init [1::nat, 2, 3]))) = []
   \<and> snd (run_calls [HasNext, HasNext, Next, Next, HasNext, Next, HasNext]
      (NIterator_init [1::nat, 2, 3]))
     = [Answered True, Answered True, Returned (Some 1), Returned (Some 2), Answered True,
        Returned (Some 3), Answered False]
   \<and> \<not> snd (has_next (fst (run_calls [HasNext, Next, HasNext]
        (fst (run_calls [HasNext, HasNext, Next, Next, HasNext, Next, HasNext]
          (NIterator_init [1::nat, 2, 3]))))))"
proof -
  have p: "pending (fst (run_calls [HasNext, HasNext, Next, Next, HasNext, Next, HasNext]
      (NIterator_init [1::nat, 2, 3]))) = []"
    by (simp add: NIterator_init_def has_next_def nit_next_def pending_def)
  show ?thesis
    using p lookahead_iterator [of "[HasNext, HasNext, Next, Next, HasNext, Next, HasNext]"
        "[1::nat, 2, 3]" "[HasNext, Next, HasNext]"]
    by (simp add: Let_def)
qed

section \<open>Python built-ins and library functions the code calls\<close>

lemma length_hex_str_le: "0 \<le> n \<Longrightarrow> n < 16 ^ k \<Longrightarrow> 0 < k \<Longrightarrow> length (hex_str n) \<le> k"
proof (induction n arbitrary: k rule: hex_str.induct)
  case (1 n)
  show ?case
  proof (cases "n < 16")
    case True
    then show ?thesis using "1.prems" by (subst hex_str.simps) simp
  next
    case False
    obtain j where k: "k = Suc j" using "1.prems"(3) by (cases k) auto
    have j: "0 < j"
    proof (rule ccontr)
      assume "\<not> 0 < j"
      then have "k = 1" using k by simp
      then show False using False "1.prems"(2) by simp
    qed
    have "n < 16 * (16 ^ j :: int)"
      using "1.prems"(2) k by simp
    then have "n div 16 < 16 ^ j"
      by linarith
    then have "length (hex_str (n div 16)) \<le> j"
      using "1.IH" [OF False _ _ j] "1.prems"(1) by simp
    then show ?thesis using False k by (subst hex_str.simps) simp
  qed
qed

lemma format_zero_x_32_length: "length (format_zero_x 32 (uint (u :: 128 word))) = 32"
proof -
  have "uint u < 2 ^ 128" using uint_bounded [of u] by simp
  then have "uint u < 16 ^ 32" by simp
  then have "length (hex_str (uint u)) \<le> 32"
    using length_hex_str_le [of "uint u" 32] by simp
  then show ?thesis by (simp add: format_zero_x_def Let_def)
qed

lemma UUID_str_length: "length (UUID_str u) = 36"
  using format_zero_x_32_length [of u] by (simp add: UUID_str_def Let_def)

lemma hex_digit_in: "hex_digit n \<in> set ''0123456789abcdef''"
  unfolding hex_digit_def by (rule nth_mem) simp

lemma hex_str_digits: "set (hex_str n) \<subseteq> set ''0123456789abcdef''"
proof (induction n rule: hex_str.induct)
  case (1 n)
  show ?case
  proof (cases "n < 16")
    case True
    then show ?thesis using hex_digit_in [of n] by (subst hex_str.simps) simp
  next
    case False
    then show ?thesis
      using "1.IH" hex_digit_in [of "n mod 16"] by (subst hex_str.simps) simp
  qed
qed

lemma mmh3_hash128_range: "0 \<le> mmh3_hash128 t \<and> mmh3_hash128 t < 2 ^ 128"
proof -
  define a where "a = uint (fst (mmh3_words t))"
  define b where "b = uint (snd (mmh3_words t))"
  have a: "0 \<le> a" "a < 2 ^ 64"
    using uint_bounded [of "fst (mmh3_words t)"] by (simp_all add: a_def)
  have b: "0 \<le> b" "b \<le> 2 ^ 64 - 1"
    using uint_bounded [of "snd (mmh3_words t)"] by (simp_all add: b_def)
  have "2 ^ 64 * b \<le> (2 ^ 64 :: int) * (2 ^ 64 - 1)"
    using b by (intro mult_left_mono) simp_all
  then have "a + 2 ^ 64 * b < 2 ^ 128"
    using a by simp
  moreover have "0 \<le> a + 2 ^ 64 * b"
    using a b by simp
  ultimately show ?thesis
    by (simp add: mmh3_hash128_def a_def b_def)
qed

lemma format_02x_shape:
  "0 \<le> n \<Longrightarrow> n < 2 ^ 128 \<Longrightarrow>
   2 \<le> length (format_02x n) \<and> length (format_02x n) \<le> 32
   \<and> set (format_02x n) \<subseteq> set ''0123456789abcdef''"
proof -
  assume n: "0 \<le> n" "n < 2 ^ 128"
  then have "n < 16 ^ 32" by simp
  then have l: "length (hex_str n) \<le> 32"
    using length_hex_str_le [of n 32] n by simp
  have d: "set (hex_str n) \<subseteq> set ''0123456789abcdef''"
    by (rule hex_str_digits)
  show ?thesis
    using l d by (auto simp: format_02x_def format_zero_x_def Let_def)
qed

section \<open>Label (jam/ir/document_store/base/store.py)\<close>





text \<open>
  C9. A Label built with the empty string as its id does not keep it: the id is the
  rendering of a freshly drawn \<^verbatim>\<open>uuid4\<close> (36 characters, so not empty), as it is when no id
  is supplied. A supplied id that is not empty is kept as it is.
\<close>

theorem label_empty_id:
  "label_id (Label_init r q a ica icd og (Some []) did off na mid cr up) = UUID_str (uuid4 r)
   \<and> length (label_id (Label_init r q a ica icd og (Some []) did off na mid cr up)) = 36
   \<and> label_id (Label_init r q a ica icd og (Some []) did off na mid cr up) \<noteq> []
   \<and> label_id (Label_init r q a ica icd og None did off na mid cr up) = UUID_str (uuid4 r)
   \<and> (i \<noteq> [] \<longrightarrow> label_id (Label_init r q a ica icd og (Some i) did off na mid cr up) = i)"
proof -
  have a: "label_id (Label_init r q a ica icd og (Some []) did off na mid cr up)
      = UUID_str (uuid4 r)"
    by (simp add: Label_init_def)
  have b: "length (UUID_str (uuid4 r)) = 36"
    by (rule UUID_str_length)
  have c: "UUID_str (uuid4 r) \<noteq> []"
    using b by auto
  show ?thesis
    using a b c by (simp add: Label_init_def)
qed

theorem label_empty_id_witness:
  "''L1'' \<noteq> []
   \<and> label_id (Label_init 0 ''q'' ''a'' True True ''gold'' (Some ''L1'') None None None None
        None None) = ''L1''
   \<and> label_id (Label_init 0 ''q'' ''a'' True True ''gold'' (Some []) None None None None
        None None) = ''00000000-0000-4000-8000-000000000000''"
proof -
  have u: "UUID_str (uuid4 0) = ''00000000-0000-4000-8000-000000000000''"
    by code_simp
  have n: "''L1'' \<noteq> []"
    by simp
  show ?thesis
    using n u label_empty_id [where i = "''L1''" and r = 0 and q = "''q''" and a = "''a''"
        and ica = True and icd = True and og = "''gold''" and did = None and off = None
        and na = None and mid = None and cr = None and up = None]
    by simp
qed

section \<open>Document (jam/ir/document_store/base/store.py)\<close>

subsection \<open>The derived id\<close>

lemma Document_init_derived_id:
  "result_id (Document_init lib h txt VNone sc prob quest met emb keys ut)
     = get_id lib txt keys ut"
  by (simp add: Document_init_def result_id_def split_beta Let_def split: sum.splits)

lemma id_of_hello:
  "format_02x (mmh3_hash128 ''hello'') = ''5b1e906a48ae1d19cbd8a7b341bd9b02''"
  by code_simp

lemma id_of_empty: "format_02x (mmh3_hash128 []) = ''00''"
  by code_simp

lemma id_of_46: "format_02x (mmh3_hash128 ''46'') = ''9df0d002fafe5548a28dbdada84f5e2''"
  by code_simp

text \<open>
  C1. A Document built from a text with no explicit id gets an id that is a function of
  the text and the hashing scheme alone: two constructions from the same text under the
  same scheme agree on the id (or on the error, for an unknown scheme), whatever the
  other arguments and the state of the store. Under the default scheme it is the
  formatted \<^verbatim>\<open>mmh3.hash128\<close> of the text (seed 0), under \<^verbatim>\<open>uuid3\<close> and \<^verbatim>\<open>uuid5\<close> the
  rendering of the name-based UUID in the fixed namespace: no random draw enters.
\<close>

theorem derived_id_deterministic:
  "result_id (Document_init lib h1 (VStr t) VNone s1 p1 q1 m1 e1 k1 ut)
     = result_id (Document_init lib h2 (VStr t) VNone s2 p2 q2 m2 e2 k2 ut)
   \<and> result_id (Document_init lib h1 (VStr t) VNone s1 p1 q1 m1 e1 k1 VNone)
     = Inr (format_02x (mmh3_hash128 t))
   \<and> result_id (Document_init lib h1 (VStr t) VNone s1 p1 q1 m1 e1 k1 (VStr ''uuid3''))
     = Inr (UUID_str (uuid3 lib NAMESPACE_DNS t))
   \<and> result_id (Document_init lib h1 (VStr t) VNone s1 p1 q1 m1 e1 k1 (VStr ''uuid5''))
     = Inr (UUID_str (uuid5 lib NAMESPACE_DNS t))"
  unfolding Document_init_derived_id by (simp add: get_id_def)

theorem derived_id_deterministic_witness:
  "result_id (Document_init example_lib [] (VStr ''hello'') VNone VNone VNone VNone VNone
       VNone VNone VNone)
     = Inr ''5b1e906a48ae1d19cbd8a7b341bd9b02''
   \<and> result_id (Document_init example_lib [ODict []] (VStr ''hello'') VNone (VInt 1) VNone
       (VStr ''q'') (VRef 0) VNone VNone VNone)
     = Inr ''5b1e906a48ae1d19cbd8a7b341bd9b02''"
proof -
  note d = derived_id_deterministic [where lib = example_lib and t = "''hello''"
      and ?h1.0 = "[]" and ?s1.0 = VNone and ?p1.0 = VNone and ?q1.0 = VNone
      and ?m1.0 = VNone and ?e1.0 = VNone and ?k1.0 = VNone and ut = VNone
      and ?h2.0 = "[ODict []]" and ?s2.0 = "VInt 1" and ?p2.0 = VNone
      and ?q2.0 = "VStr ''q''" and ?m2.0 = "VRef 0" and ?e2.0 = VNone and ?k2.0 = VNone]
  have a: "result_id (Document_init example_lib [] (VStr ''hello'') VNone VNone VNone VNone
      VNone VNone VNone VNone) = Inr ''5b1e906a48ae1d19cbd8a7b341bd9b02''"
    using d [THEN conjunct2, THEN conjunct1] by (simp add: id_of_hello)
  show ?thesis
    using a d [THEN conjunct1] by simp
qed

text \<open>
  C7, as the code has it. Under the default scheme the id is the 128-bit hash written by
  the format \<^verbatim>\<open>02x\<close>: lower-case hexadecimal digits, at least 2 and at most 32 of them.
  The width is a minimum, not a fixed width: a hash with leading zero digits gives a
  shorter id.
\<close>

theorem default_id_hex:
  "result_id (Document_init lib h (VStr t) VNone s p q m e k VNone)
     = Inr (format_02x (mmh3_hash128 t))
   \<and> 0 \<le> mmh3_hash128 t \<and> mmh3_hash128 t < 2 ^ 128
   \<and> 2 \<le> length (format_02x (mmh3_hash128 t))
   \<and> length (format_02x (mmh3_hash128 t)) \<le> 32
   \<and> set (format_02x (mmh3_hash128 t)) \<subseteq> set ''0123456789abcdef''"
proof -
  have "result_id (Document_init lib h (VStr t) VNone s p q m e k VNone)
      = Inr (format_02x (mmh3_hash128 t))"
    unfolding Document_init_derived_id by (simp add: get_id_def)
  then show ?thesis
    using mmh3_hash128_range [of t] format_02x_shape [of "mmh3_hash128 t"] by simp
qed

theorem default_id_hex_witness:
  "result_id (Document_init example_lib [] (VStr ''46'') VNone VNone VNone VNone VNone VNone
       VNone VNone)
     = Inr ''9df0d002fafe5548a28dbdada84f5e2''
   \<and> length ''9df0d002fafe5548a28dbdada84f5e2'' = 31"
  using default_id_hex [where lib = example_lib and h = "[]" and t = "''46''" and s = VNone
      and p = VNone and q = VNone and m = VNone and e = VNone and k = VNone]
  by (simp add: id_of_46)

text \<open>
  The claim as stated fails: the empty text has the id \<^verbatim>\<open>00\<close> of two characters and the
  text \<^verbatim>\<open>hello\<close> an id of 32.
\<close>

theorem default_id_width_counterexample:
  "result_id (Document_init example_lib [] (VStr []) VNone VNone VNone VNone VNone VNone
       VNone VNone) = Inr ''00''
   \<and> result_id (Document_init example_lib [] (VStr ''hello'') VNone VNone VNone VNone VNone
       VNone VNone VNone) = Inr ''5b1e906a48ae1d19cbd8a7b341bd9b02''
   \<and> length ''00'' \<noteq> length ''5b1e906a48ae1d19cbd8a7b341bd9b02''"
  unfolding Document_init_derived_id by (simp add: get_id_def id_of_empty id_of_hello)

subsection \<open>The input of \<^verbatim>\<open>from_dict\<close> is left alone\<close>

lemma val_ge_shift: "val_ge n (shift_val n v)"
  by (simp add: val_ge_def shift_val_def split: val.splits)

lemma obj_ge_shift: "obj_ge n (shift_obj n ob)"
  by (auto simp: obj_ge_def shift_obj_def list_all_iff val_ge_shift split: obj.splits)

lemma extends_length: "extends h0 h \<Longrightarrow> length h0 \<le> length h"
proof -
  assume "extends h0 h"
  then have "length (take (length h0) h) = length h0" by (simp add: extends_def)
  then show ?thesis by simp
qed

lemma extends_deepcopy: "extends h (fst (deepcopy h v))"
  by (simp add: extends_def deepcopy_def list_all_iff obj_ge_shift)

lemma deepcopy_ge: "val_ge (length h) (snd (deepcopy h v))"
  by (simp add: deepcopy_def val_ge_shift)

lemma extends_alloc:
  "extends h0 h \<Longrightarrow> obj_ge (length h0) ob \<Longrightarrow> extends h0 (fst (alloc h ob))"
  using extends_length [of h0 h] by (simp add: extends_def alloc_def)

lemma alloc_ge: "extends h0 h \<Longrightarrow> val_ge (length h0) (snd (alloc h ob))"
  using extends_length [of h0 h] by (simp add: alloc_def val_ge_def)

lemma extends_nth:
  assumes "extends h0 h" "length h0 \<le> a" "a < length h"
  shows "obj_ge (length h0) (h ! a)"
proof -
  have "drop (length h0) h ! (a - length h0) = h ! a"
    using assms(2,3) by simp
  moreover have "a - length h0 < length (drop (length h0) h)"
    using assms(2,3) by simp
  ultimately have "h ! a \<in> set (drop (length h0) h)"
    by (metis nth_mem)
  then show ?thesis
    using assms(1) by (simp add: extends_def list_all_iff)
qed

lemma list_all_update:
  "list_all P items \<Longrightarrow> P (k, v) \<Longrightarrow> list_all P (AList.update k v items)"
  by (induction items) auto

lemma extends_setitem:
  assumes "extends h0 h" "val_ge (length h0) x" "val_ge (length h0) v"
    and "setitem h x k v = Inr h1"
  shows "extends h0 h1"
proof -
  obtain a items where x: "x = VRef a" and a: "a < length h" and o: "h ! a = ODict items"
    and h1: "h1 = h[a := ODict (AList.update k v items)]"
    using assms(4) by (auto simp: setitem_def split: val.splits if_splits obj.splits)
  have ge: "length h0 \<le> a" using assms(2) x by (simp add: val_ge_def)
  have "obj_ge (length h0) (ODict items)"
    using extends_nth [OF assms(1) ge a] o by simp
  then have n: "obj_ge (length h0) (ODict (AList.update k v items))"
    using assms(3) by (simp add: obj_ge_def list_all_update)
  have t: "take (length h0) h1 = h0"
    using assms(1) ge by (simp add: h1 extends_def)
  have d: "drop (length h0) h1
      = (drop (length h0) h)[a - length h0 := ODict (AList.update k v items)]"
    unfolding h1 using ge by (simp add: drop_update_swap)
  have "set ((drop (length h0) h)[a - length h0 := ODict (AList.update k v items)])
      \<subseteq> insert (ODict (AList.update k v items)) (set (drop (length h0) h))"
    by (rule set_update_subset_insert)
  then have "list_all (obj_ge (length h0)) (drop (length h0) h1)"
    using assms(1) n unfolding d extends_def list_all_iff by blast
  then show ?thesis using t by (simp add: extends_def)
qed

lemma getitem_ge:
  assumes "extends h0 h" "val_ge (length h0) x" "getitem h x k = Inr v"
  shows "val_ge (length h0) v"
proof -
  obtain a items where x: "x = VRef a" and a: "a < length h" and o: "h ! a = ODict items"
    and m: "map_of items k = Some v"
    using assms(3) by (auto simp: getitem_def split: val.splits if_splits obj.splits option.splits)
  have ge: "length h0 \<le> a" using assms(2) x by (simp add: val_ge_def)
  have "obj_ge (length h0) (ODict items)"
    using extends_nth [OF assms(1) ge a] o by simp
  then show ?thesis
    using map_of_SomeD [OF m] by (auto simp: obj_ge_def list_all_iff)
qed

lemma dict_items_ge:
  assumes "extends h0 h" "val_ge (length h0) x" "dict_items h x = Inr items"
  shows "list_all (\<lambda>kv. val_ge (length h0) (snd kv)) items"
proof -
  obtain a where x: "x = VRef a" and a: "a < length h" and o: "h ! a = ODict items"
    using assms(3) by (auto simp: dict_items_def split: val.splits if_splits obj.splits)
  have ge: "length h0 \<le> a" using assms(2) x by (simp add: val_ge_def)
  show ?thesis
    using extends_nth [OF assms(1) ge a] o by (simp add: obj_ge_def)
qed

lemma extends_copy_additional:
  "extends h0 h \<Longrightarrow> val_ge (length h0) doc
   \<Longrightarrow> list_all (\<lambda>kv. val_ge (length h0) (snd kv)) kvs
   \<Longrightarrow> extends h0 (fst (copy_additional field_map doc kvs h))"
proof (induction kvs arbitrary: h)
  case Nil
  then show ?case by simp
next
  case (Cons kv kvs)
  obtain k v where kv: "kv = (k, v)" by (cases kv)
  show ?case
  proof (cases "k \<notin> set init_args \<and> k \<notin> fst ` set field_map")
    case False
    then show ?thesis using Cons kv by auto
  next
    case True
    show ?thesis
    proof (cases "getitem h doc ''meta''")
      case (Inl e)
      then show ?thesis using True kv Cons.prems(1) by simp
    next
      case (Inr m)
      have mg: "val_ge (length h0) m"
        by (rule getitem_ge [OF Cons.prems(1,2) Inr])
      show ?thesis
      proof (cases "setitem h m k v")
        case (Inl e)
        then show ?thesis using True kv Inr Cons.prems(1) by simp
      next
        case h1: (Inr h1)
        have "extends h0 h1"
          using extends_setitem [OF Cons.prems(1) mg _ h1] Cons.prems(3) kv by simp
        then show ?thesis
          using Cons.IH [of h1] Cons.prems True kv Inr h1 by simp
      qed
    qed
  qed
qed

lemma extends_Document_init:
  "extends h0 h \<Longrightarrow>
   extends h0 (fst (Document_init lib h txt ident sc prob quest met emb keys ut))"
  using extends_alloc [of h0 h "ODict []"]
  by (auto simp: Document_init_def Let_def split_beta obj_ge_def split: sum.splits)

lemma extends_Document_call:
  "extends h0 h \<Longrightarrow> extends h0 (fst (Document_call lib h kwargs))"
  by (auto simp: Document_call_def extends_Document_init split: option.splits)

lemma extends_ensure_meta:
  assumes "extends h0 h" "val_ge (length h0) doc" "ensure_meta h doc items = Inr h1"
  shows "extends h0 h1"
proof (cases "''meta'' \<notin> fst ` set items")
  case False
  then show ?thesis using assms by (simp add: ensure_meta_def)
next
  case True
  then have s: "setitem (fst (alloc h (ODict []))) doc ''meta'' (snd (alloc h (ODict []))) = Inr h1"
    using assms(3) by (simp add: ensure_meta_def split_beta)
  show ?thesis
    by (rule extends_setitem [OF extends_alloc [OF assms(1)] assms(2) alloc_ge [OF assms(1)] s])
      (simp add: obj_ge_def)
qed

lemma extends_construct:
  "extends h0 h \<Longrightarrow> extends h0 (fst (construct lib h field_map items ut))"
  by (simp add: construct_def Let_def extends_Document_call)

lemma extends_from_dict: "extends h (fst (from_dict lib h d field_map ut))"
proof -
  obtain h1 doc where dc: "deepcopy h d = (h1, doc)" by (cases "deepcopy h d")
  have e1: "extends h h1" using extends_deepcopy [of h d] dc by simp
  have dg: "val_ge (length h) doc" using deepcopy_ge [of h d] dc by simp
  show ?thesis
  proof (cases "dict_items h1 doc")
    case (Inl e)
    then show ?thesis using e1 dc by (simp add: from_dict_def)
  next
    case items0: (Inr items0)
    show ?thesis
    proof (cases "ensure_meta h1 doc items0")
      case (Inl e)
      then show ?thesis using e1 dc items0 by (simp add: from_dict_def)
    next
      case h2: (Inr h2)
      have e2: "extends h h2" by (rule extends_ensure_meta [OF e1 dg h2])
      show ?thesis
      proof (cases "dict_items h2 doc")
        case (Inl e)
        then show ?thesis using e2 dc items0 h2 by (simp add: from_dict_def)
      next
        case items1: (Inr items1)
        obtain h3 r where ca: "copy_additional field_map doc items1 h2 = (h3, r)"
          by (cases "copy_additional field_map doc items1 h2")
        have e3: "extends h h3"
          using extends_copy_additional [OF e2 dg dict_items_ge [OF e2 dg items1], of field_map] ca
          by simp
        show ?thesis
        proof (cases r)
          case (Inl e)
          then show ?thesis using e3 dc items0 h2 items1 ca by (simp add: from_dict_def)
        next
          case (Inr u)
          show ?thesis
          proof (cases "dict_items h3 doc")
            case (Inl e)
            then show ?thesis using e3 dc items0 h2 items1 ca Inr by (simp add: from_dict_def)
          next
            case items2: (Inr items2)
            then show ?thesis
              using extends_construct [OF e3, of lib field_map items2 ut] dc items0 h2 items1 ca Inr
              by (simp add: from_dict_def)
          qed
        qed
      qed
    qed
  qed
qed

text \<open>
  C10. \<^verbatim>\<open>from_dict\<close> modifies no object that existed before the call: whatever the input
  mapping, the field map and the scheme, and whether it returns a Document or raises, the
  store after the call begins with the store before it, object by object. The input
  mapping and every object it reaches, its nested \<^verbatim>\<open>meta\<close> included, are among them; the
  keys folded into \<^verbatim>\<open>meta\<close> are written to objects allocated by the call.
\<close>

theorem from_dict_leaves_input:
  "take (length h) (fst (from_dict lib h dict field_map uuid_type)) = h"
  using extends_from_dict [of h lib dict field_map uuid_type] by (simp add: extends_def)

theorem from_dict_leaves_input_witness:
  "fst (from_dict example_lib
       [ODict [(''text'', VStr ''t''), (''id'', VStr ''7''), (''meta'', VRef 1), (''x'', VInt 5)],
        ODict [(''a'', VStr ''1'')]]
       (VRef 0) [] VNone)
     = [ODict [(''text'', VStr ''t''), (''id'', VStr ''7''), (''meta'', VRef 1), (''x'', VInt 5)],
        ODict [(''a'', VStr ''1'')],
        ODict [(''text'', VStr ''t''), (''id'', VStr ''7''), (''meta'', VRef 3), (''x'', VInt 5)],
        ODict [(''a'', VStr ''1''), (''x'', VInt 5)]]
   \<and> take 2 (fst (from_dict example_lib
       [ODict [(''text'', VStr ''t''), (''id'', VStr ''7''), (''meta'', VRef 1), (''x'', VInt 5)],
        ODict [(''a'', VStr ''1'')]]
       (VRef 0) [] VNone))
     = [ODict [(''text'', VStr ''t''), (''id'', VStr ''7''), (''meta'', VRef 1), (''x'', VInt 5)],
        ODict [(''a'', VStr ''1'')]]"
proof -
  have e: "fst (from_dict example_lib
       [ODict [(''text'', VStr ''t''), (''id'', VStr ''7''), (''meta'', VRef 1), (''x'', VInt 5)],
        ODict [(''a'', VStr ''1'')]]
       (VRef 0) [] VNone)
     = [ODict [(''text'', VStr ''t''), (''id'', VStr ''7''), (''meta'', VRef 1), (''x'', VInt 5)],
        ODict [(''a'', VStr ''1'')],
        ODict [(''text'', VStr ''t''), (''id'', VStr ''7''), (''meta'', VRef 3), (''x'', VInt 5)],
        ODict [(''a'', VStr ''1''), (''x'', VInt 5)]]"
    by code_simp
  show ?thesis
    using e from_dict_leaves_input [of
        "[ODict [(''text'', VStr ''t''), (''id'', VStr ''7''), (''meta'', VRef 1), (''x'', VInt 5)],
          ODict [(''a'', VStr ''1'')]]"
        example_lib "VRef 0" "[]" VNone]
    by simp
qed

subsection \<open>Serialization\<close>

text \<open>The inverted field map of \<^verbatim>\<open>to_dict\<close>.\<close>

lemma invert_fold_Some:
  "map_of (fold (\<lambda>(k, v) inv. AList.update v k inv) fm acc) f = Some k
   \<Longrightarrow> (k, f) \<in> set fm \<or> map_of acc f = Some k"
proof (induction fm arbitrary: acc)
  case Nil
  then show ?case by simp
next
  case (Cons kv fm)
  obtain k1 v1 where kv: "kv = (k1, v1)" by (cases kv)
  have "(k, f) \<in> set fm \<or> map_of (AList.update v1 k1 acc) f = Some k"
    using Cons.IH [of "AList.update v1 k1 acc"] Cons.prems kv by simp
  then show ?case
    using kv by (auto simp: AList.update_conv' split: if_splits)
qed

lemma invert_fold_dom:
  "fst ` set (fold (\<lambda>(k, v) inv. AList.update v k inv) fm acc) = snd ` set fm \<union> fst ` set acc"
proof (induction fm arbitrary: acc)
  case Nil
  then show ?case by simp
next
  case (Cons kv fm)
  obtain k1 v1 where kv: "kv = (k1, v1)" by (cases kv)
  show ?case
    using Cons.IH [of "AList.update v1 k1 acc"] kv by (auto simp: AList.dom_update)
qed

lemma invert_field_map_Some:
  "map_of (invert_field_map fm) f = Some k \<Longrightarrow> (k, f) \<in> set fm"
  unfolding invert_field_map_def using invert_fold_Some [of fm "[]" f k] by simp

lemma invert_field_map_None:
  "f \<notin> snd ` set fm \<Longrightarrow> map_of (invert_field_map fm) f = None"
proof -
  assume "f \<notin> snd ` set fm"
  then have "f \<notin> fst ` set (invert_field_map fm)"
    unfolding invert_field_map_def invert_fold_dom by simp
  then show ?thesis by (simp add: map_of_eq_None_iff)
qed

text \<open>Renaming a field, then looking the new name up as \<^verbatim>\<open>from_dict\<close> does, gives the field back.\<close>

lemma target_rename:
  assumes "distinct (map fst fm)" "set (map fst fm) \<inter> set init_args = {}" "f \<in> set init_args"
  shows "target fm (rename (invert_field_map fm) f) = Some f"
proof (cases "map_of (invert_field_map fm) f")
  case None
  then show ?thesis using assms(3) by (simp add: rename_def target_def)
next
  case (Some k)
  have kf: "(k, f) \<in> set fm" by (rule invert_field_map_Some [OF Some])
  then have "k \<in> set (map fst fm)" by force
  then have "k \<notin> set init_args" using assms(2) by auto
  moreover have "map_of fm k = Some f" using kf assms(1) by simp
  ultimately show ?thesis using Some by (simp add: rename_def target_def)
qed

lemma rename_unmapped:
  "f \<notin> snd ` set fm \<Longrightarrow> rename (invert_field_map fm) f = f"
  by (simp add: rename_def invert_field_map_None)

lemma rename_inj:
  assumes "distinct (map fst fm)" "set (map fst fm) \<inter> set init_args = {}"
  shows "inj_on (rename (invert_field_map fm)) (set init_args)"
proof (rule inj_onI)
  fix f g
  assume f: "f \<in> set init_args" and g: "g \<in> set init_args"
    and e: "rename (invert_field_map fm) f = rename (invert_field_map fm) g"
  have "Some f = target fm (rename (invert_field_map fm) f)"
    using target_rename [OF assms f] by simp
  also have "\<dots> = Some g"
    unfolding e using target_rename [OF assms g] by simp
  finally show "f = g" by simp
qed

text \<open>The \<^verbatim>\<open>dict\<close> that \<^verbatim>\<open>to_dict\<close> builds.\<close>

lemma update_fresh: "k \<notin> fst ` set al \<Longrightarrow> AList.update k v al = al @ [(k, v)]"
  by (induction al) auto

lemma fold_update_fresh:
  "distinct (map (g \<circ> fst) kvs) \<Longrightarrow> g ` fst ` set kvs \<inter> fst ` set acc = {}
   \<Longrightarrow> fold (\<lambda>(k, v) d. AList.update (g k) v d) kvs acc = acc @ map (\<lambda>(k, v). (g k, v)) kvs"
proof (induction kvs arbitrary: acc)
  case Nil
  then show ?case by simp
next
  case (Cons kv kvs)
  obtain k v where kv: "kv = (k, v)" by (cases kv)
  have fr: "g k \<notin> fst ` set acc" using Cons.prems(2) kv by auto
  have "g ` fst ` set kvs \<inter> fst ` set (acc @ [(g k, v)]) = {}"
    using Cons.prems kv by auto
  then have "fold (\<lambda>(k, v) d. AList.update (g k) v d) kvs (acc @ [(g k, v)])
      = (acc @ [(g k, v)]) @ map (\<lambda>(k, v). (g k, v)) kvs"
    using Cons.IH [of "acc @ [(g k, v)]"] Cons.prems(1) by simp
  then show ?case using kv fr by (simp add: update_fresh)
qed

lemma Document_dict_keys: "map fst (Document_dict d) =
    [''text'', ''score'', ''probability'', ''question'', ''meta'', ''embedding'', ''id'']"
  by (simp add: Document_dict_def)

lemma Document_dict_keys_init: "set (map fst (Document_dict d)) = set init_args"
  unfolding Document_dict_keys by (auto simp: init_args_def)

lemma to_dict_items:
  assumes "distinct (map fst fm)" "set (map fst fm) \<inter> set init_args = {}"
  shows "to_dict h d fm
    = (h @ [ODict (map (\<lambda>(k, v). (rename (invert_field_map fm) k, v)) (Document_dict d))],
       VRef (length h))"
proof -
  have "distinct (map fst (Document_dict d))"
    unfolding Document_dict_keys by simp
  moreover have "inj_on (rename (invert_field_map fm)) (set (map fst (Document_dict d)))"
    unfolding Document_dict_keys_init by (rule rename_inj [OF assms])
  ultimately have "distinct (map (rename (invert_field_map fm) \<circ> fst) (Document_dict d))"
    using distinct_map [of "rename (invert_field_map fm)" "map fst (Document_dict d)"] by simp
  then show ?thesis
    using fold_update_fresh [of "rename (invert_field_map fm)" "Document_dict d" "[]"]
    by (simp add: to_dict_def alloc_def Let_def)
qed

text \<open>The two loops of \<^verbatim>\<open>from_dict\<close> on such a \<^verbatim>\<open>dict\<close>.\<close>

lemma copy_additional_noop:
  "\<forall>kv \<in> set kvs. fst kv \<in> set init_args \<or> fst kv \<in> fst ` set fm
   \<Longrightarrow> copy_additional fm doc kvs h = (h, Inr ())"
proof (induction kvs arbitrary: h)
  case Nil
  then show ?case by simp
next
  case (Cons kv kvs)
  obtain k v where kv: "kv = (k, v)" by (cases kv)
  have "k \<in> set init_args \<or> k \<in> fst ` set fm"
    using Cons.prems kv by auto
  then show ?case
  proof
    assume "k \<in> set init_args"
    then show ?thesis using Cons kv by simp
  next
    assume "k \<in> fst ` set fm"
    then show ?thesis using Cons kv by simp
  qed
qed

lemma remove_additional_target:
  "\<forall>kv \<in> set fkvs. target fm (r (fst kv)) = Some (fst kv)
   \<Longrightarrow> remove_additional fm (map (\<lambda>(f, v). (r f, g v)) fkvs) acc
       = fold (\<lambda>(f, v) d. AList.update f (g v) d) fkvs acc"
proof (induction fkvs arbitrary: acc)
  case Nil
  then show ?case by simp
next
  case (Cons kv fkvs)
  obtain f v where kv: "kv = (f, v)" by (cases kv)
  have t: "target fm (r f) = Some f" using Cons.prems kv by simp
  have "remove_additional fm ((r f, g v) # map (\<lambda>(f, v). (r f, g v)) fkvs) acc
      = remove_additional fm (map (\<lambda>(f, v). (r f, g v)) fkvs) (AList.update f (g v) acc)"
    using t by (auto simp: target_def split: if_splits)
  then show ?case using Cons.IH [of "AList.update f (g v) acc"] Cons.prems kv by simp
qed

text \<open>Reading values back from the store after the copy.\<close>

lemma val_lt_mono: "val_lt n v \<Longrightarrow> n \<le> m \<Longrightarrow> val_lt m v"
  by (auto simp: val_lt_def split: val.splits)

lemma closed_nth: "closed_store h \<Longrightarrow> a < length h \<Longrightarrow> obj_lt (length h) (h ! a)"
  by (simp add: closed_store_def list_all_length)

lemma shift_val_simps:
  "shift_val n VNone = VNone" "shift_val n (VBool b) = VBool b" "shift_val n (VInt i) = VInt i"
  "shift_val n (VFloat w) = VFloat w" "shift_val n (VStr s) = VStr s"
  "shift_val n (VRef a) = VRef (a + n)"
  by (simp_all add: shift_val_def)

lemma read_Suc_ref:
  "a < length h \<Longrightarrow> read_val (Suc n) h (VRef a) =
     (case h ! a of
        ODict items \<Rightarrow>
          map_option PDict (those (map (\<lambda>kv. map_option (Pair (fst kv)) (read_val n h (snd kv))) items))
      | OList xs \<Rightarrow> map_option PList (those (map (read_val n h) xs)))"
  by simp

lemma read_append:
  "closed_store h \<Longrightarrow> val_lt (length h) v \<Longrightarrow> read_val n (h @ ext) v = read_val n h v"
proof (induction n arbitrary: v)
  case 0
  then show ?case by (cases v) simp_all
next
  case (Suc n)
  show ?case
  proof (cases v)
    case (VRef a)
    then have a: "a < length h" using Suc.prems(2) by (simp add: val_lt_def)
    have o: "obj_lt (length h) (h ! a)" by (rule closed_nth [OF Suc.prems(1) a])
    have a2: "a < length (h @ ext)" using a by simp
    have n: "(h @ ext) ! a = h ! a" using a by (simp add: nth_append)
    show ?thesis
    proof (cases "h ! a")
      case (ODict items)
      have m: "map (\<lambda>kv. map_option (Pair (fst kv)) (read_val n (h @ ext) (snd kv))) items
          = map (\<lambda>kv. map_option (Pair (fst kv)) (read_val n h (snd kv))) items"
        using o ODict Suc.IH [OF Suc.prems(1)] by (simp add: obj_lt_def list_all_iff)
      show ?thesis
        unfolding VRef read_Suc_ref [OF a] read_Suc_ref [OF a2] n ODict by (simp add: m)
    next
      case (OList xs)
      have m: "map (read_val n (h @ ext)) xs = map (read_val n h) xs"
        using o OList Suc.IH [OF Suc.prems(1)] by (simp add: obj_lt_def list_all_iff)
      show ?thesis
        unfolding VRef read_Suc_ref [OF a] read_Suc_ref [OF a2] n OList by (simp add: m)
    qed
  qed simp_all
qed

lemma copy_nth:
  "a < length h \<Longrightarrow> (h @ map (shift_obj (length h)) h @ ext) ! (a + length h) = shift_obj (length h) (h ! a)"
  by (simp add: nth_append)

lemma read_shift:
  "closed_store h \<Longrightarrow> val_lt (length h) v
   \<Longrightarrow> read_val n (h @ map (shift_obj (length h)) h @ ext) (shift_val (length h) v) = read_val n h v"
proof (induction n arbitrary: v)
  case 0
  then show ?case by (cases v) (simp_all add: shift_val_simps)
next
  case (Suc n)
  define H where "H = h @ map (shift_obj (length h)) h @ ext"
  have ih: "val_lt (length h) w \<Longrightarrow> read_val n H (shift_val (length h) w) = read_val n h w" for w
    unfolding H_def by (rule Suc.IH [OF Suc.prems(1)])
  have "read_val (Suc n) H (shift_val (length h) v) = read_val (Suc n) h v"
  proof (cases v)
    case (VRef a)
    then have a: "a < length h" using Suc.prems(2) by (simp add: val_lt_def)
    have o: "obj_lt (length h) (h ! a)" by (rule closed_nth [OF Suc.prems(1) a])
    have c: "H ! (a + length h) = shift_obj (length h) (h ! a)"
      unfolding H_def by (rule copy_nth [OF a])
    have l: "a + length h < length H" using a by (simp add: H_def)
    show ?thesis
    proof (cases "h ! a")
      case (ODict items)
      have m: "map (\<lambda>kv. map_option (Pair (fst kv)) (read_val n H (snd kv)))
            (map (\<lambda>(k, v). (k, shift_val (length h) v)) items)
          = map (\<lambda>kv. map_option (Pair (fst kv)) (read_val n h (snd kv))) items"
        using o ODict ih by (simp add: obj_lt_def list_all_iff split_beta)
      show ?thesis
        unfolding VRef shift_val_simps read_Suc_ref [OF a] read_Suc_ref [OF l] c ODict
        by (simp only: shift_obj_def obj.case m)
    next
      case (OList xs)
      have m: "map (read_val n H) (map (shift_val (length h)) xs) = map (read_val n h) xs"
        using o OList ih by (simp add: obj_lt_def list_all_iff)
      show ?thesis
        unfolding VRef shift_val_simps read_Suc_ref [OF a] read_Suc_ref [OF l] c OList
        by (simp only: shift_obj_def obj.case m)
    qed
  qed (simp_all add: shift_val_simps)
  then show ?case unfolding H_def .
qed

lemma truthy_append: "val_lt (length h) v \<Longrightarrow> truthy (h @ ext) v = truthy h v"
  by (cases v) (simp_all add: truthy_def val_lt_def nth_append)

lemma truthy_shift:
  assumes "val_lt (length h) v"
  shows "truthy (h @ map (shift_obj (length h)) h @ ext) (shift_val (length h) v) = truthy h v"
proof (cases v)
  case (VRef a)
  define H where "H = h @ map (shift_obj (length h)) h @ ext"
  have a: "a < length h" using assms VRef by (simp add: val_lt_def)
  have c: "H ! (a + length h) = shift_obj (length h) (h ! a)"
    unfolding H_def by (rule copy_nth [OF a])
  have l: "a + length h < length H" using a by (simp add: H_def)
  have "truthy H (VRef (a + length h)) = truthy h (VRef a)"
    using a l c by (cases "h ! a") (simp_all add: truthy_def shift_obj_def)
  then show ?thesis unfolding H_def VRef shift_val_simps .
qed (simp_all add: truthy_def shift_val_simps)

lemma obj_lt_mono: "obj_lt n ob \<Longrightarrow> n \<le> m \<Longrightarrow> obj_lt m ob"
  by (cases ob) (auto simp: obj_lt_def list_all_iff intro: val_lt_mono)

lemma closed_snoc:
  assumes "closed_store h" "list_all (\<lambda>kv. val_lt (length h) (snd kv)) items"
  shows "closed_store (h @ [ODict items])"
proof -
  have "list_all (obj_lt (Suc (length h))) h"
    using assms(1) obj_lt_mono [of "length h" _ "Suc (length h)"]
    by (auto simp: closed_store_def list_all_iff)
  moreover have "obj_lt (Suc (length h)) (ODict items)"
    using assms(2) val_lt_mono [of "length h" _ "Suc (length h)"]
    by (auto simp: obj_lt_def list_all_iff)
  ultimately show ?thesis by (simp add: closed_store_def)
qed

text \<open>The Documents the constructor builds are the ones the round trip is stated for.\<close>

lemma Document_init_doc_ok:
  assumes c: "closed_store h"
    and v: "list_all (val_lt (length h)) [tx, sc, prob, quest, met, emb]"
    and r: "Document_init lib h tx ident sc prob quest met emb keys ut = (h1, Inr D)"
  shows "closed_store h1 \<and> doc_ok h1 D"
proof (cases "truthy h met")
  case True
  then have "h1 = h" and "map snd (Document_dict D) = [tx, sc, prob, quest, met, emb, VStr (doc_id D)]"
    and "meta D = met"
    using r by (auto simp: Document_init_def Document_dict_def split: sum.splits if_splits)
  then show ?thesis
    using c v True by (simp add: doc_ok_def val_lt_def)
next
  case False
  then have h1: "h1 = h @ [ODict []]"
    and f: "map snd (Document_dict D)
      = [tx, sc, prob, quest, VRef (length h), emb, VStr (doc_id D)]"
    and m: "meta D = VRef (length h)"
    using r by (auto simp: Document_init_def Document_dict_def alloc_def split: sum.splits if_splits)
  have c1: "closed_store h1"
    unfolding h1 by (rule closed_snoc [OF c]) simp
  have "list_all (val_lt (length h1)) [tx, sc, prob, quest, met, emb]"
    using v val_lt_mono [of "length h" _ "length h1"] by (simp add: h1)
  then have "list_all (val_lt (length h1)) (map snd (Document_dict D))"
    unfolding f by (simp add: val_lt_def h1)
  then show ?thesis
    using c1 m by (simp add: doc_ok_def h1)
qed

lemma Document_init_given_id:
  "Document_init lib h txt (VStr i) sc prob quest met emb keys ut =
     (if truthy h met
      then (h, Inr \<lparr>doc_text = txt, score = sc, probability = prob, doc_question = quest,
                    meta = met, embedding = emb, doc_id = i\<rparr>)
      else (h @ [ODict []],
            Inr \<lparr>doc_text = txt, score = sc, probability = prob, doc_question = quest,
                 meta = VRef (length h), embedding = emb, doc_id = i\<rparr>))"
  by (simp add: Document_init_def py_str_def alloc_def)

lemma construct_all_fields:
  assumes "remove_additional fm items [] =
      [(''text'', t), (''score'', sc), (''probability'', pr), (''question'', q), (''meta'', m),
       (''embedding'', e), (''id'', VStr i)]"
  shows "construct lib h fm items ut = Document_init lib h t (VStr i) sc pr q m e VNone
      (if truthy h ut then ut else VNone)"
  unfolding construct_def assms
  by (simp add: Document_call_def Document_params_def kwarg_def Let_def)

lemma from_dict_to_dict:
  assumes dk: "distinct (map fst fm)"
    and dj: "set (map fst fm) \<inter> set init_args = {}"
    and nm: "''meta'' \<notin> snd ` set fm"
    and n1_def: "n1 = Suc (length h)"
    and r_def: "r = rename (invert_field_map fm)"
    and h1_def: "h1 = h @ [ODict (map (\<lambda>(k, v). (r k, v)) (Document_dict D))]"
    and H_def: "H = h1 @ map (shift_obj n1) h1"
  shows "to_dict h D fm = (h1, VRef (length h))"
    and "from_dict lib h1 (VRef (length h)) fm ut =
      Document_init lib H (shift_val n1 (doc_text D)) (VStr (doc_id D))
        (shift_val n1 (score D)) (shift_val n1 (probability D)) (shift_val n1 (doc_question D))
        (shift_val n1 (meta D)) (shift_val n1 (embedding D)) VNone
        (if truthy H ut then ut else VNone)"
proof -
  show td: "to_dict h D fm = (h1, VRef (length h))"
    unfolding h1_def r_def by (rule to_dict_items [OF dk dj])
  define doc where "doc = VRef (length h + n1)"
  define items1 where "items1 = map (\<lambda>(f, v). (r f, shift_val n1 v)) (Document_dict D)"
  have l1: "length h1 = n1" by (simp add: h1_def n1_def)
  have dc: "deepcopy h1 (VRef (length h)) = (H, doc)"
    by (simp add: deepcopy_def H_def doc_def l1 shift_val_simps)
  have lh: "length h < length h1" by (simp add: h1_def)
  have "H ! (length h + n1) = shift_obj n1 (h1 ! length h)"
    using copy_nth [OF lh, of "[]"] by (simp add: H_def l1)
  then have hn: "H ! (length h + n1) = ODict items1"
    by (simp add: h1_def shift_obj_def items1_def split_beta)
  have ll: "length h + n1 < length H" by (simp add: H_def l1 n1_def)
  have di: "dict_items H doc = Inr items1"
    using hn ll by (simp add: dict_items_def doc_def)
  have tr: "target fm (r f) = Some f" if "f \<in> set init_args" for f
    unfolding r_def by (rule target_rename [OF dk dj that])
  have rm: "r ''meta'' = ''meta''"
    unfolding r_def by (rule rename_unmapped [OF nm])
  have mk: "''meta'' \<in> fst ` set items1"
  proof -
    have "(r ''meta'', shift_val n1 (meta D)) \<in> set items1"
      by (simp add: items1_def Document_dict_def)
    then show ?thesis unfolding rm by force
  qed
  have em: "ensure_meta H doc items1 = Inr H"
    using mk by (simp add: ensure_meta_def)
  have keys: "fst kv \<in> set init_args \<or> fst kv \<in> fst ` set fm"
    if kvin: "kv \<in> set items1" for kv
  proof -
    obtain f v where fv: "(f, v) \<in> set (Document_dict D)" and kv: "kv = (r f, shift_val n1 v)"
      using kvin by (auto simp: items1_def)
    have "f \<in> set (map fst (Document_dict D))" using fv by force
    then have f: "f \<in> set init_args" unfolding Document_dict_keys_init .
    show ?thesis
    proof (cases "r f \<in> set init_args")
      case True
      then show ?thesis by (simp add: kv)
    next
      case False
      then have "map_of fm (r f) = Some f" using tr [OF f] by (simp add: target_def)
      then have "(r f, f) \<in> set fm" by (rule map_of_SomeD)
      then show ?thesis by (force simp: kv)
    qed
  qed
  have ca: "copy_additional fm doc items1 H = (H, Inr ())"
    by (rule copy_additional_noop) (use keys in blast)
  have "\<forall>kv \<in> set (Document_dict D). target fm (r (fst kv)) = Some (fst kv)"
  proof
    fix kv assume "kv \<in> set (Document_dict D)"
    then have "fst kv \<in> set (map fst (Document_dict D))" by simp
    then have "fst kv \<in> set init_args" unfolding Document_dict_keys_init .
    then show "target fm (r (fst kv)) = Some (fst kv)" by (rule tr)
  qed
  then have "remove_additional fm items1 []
      = fold (\<lambda>(f, v) d. AList.update f (shift_val n1 v) d) (Document_dict D) []"
    unfolding items1_def by (rule remove_additional_target)
  then have ra: "remove_additional fm items1 [] =
      [(''text'', shift_val n1 (doc_text D)), (''score'', shift_val n1 (score D)),
       (''probability'', shift_val n1 (probability D)),
       (''question'', shift_val n1 (doc_question D)), (''meta'', shift_val n1 (meta D)),
       (''embedding'', shift_val n1 (embedding D)), (''id'', VStr (doc_id D))]"
    by (simp add: Document_dict_def shift_val_simps)
  show "from_dict lib h1 (VRef (length h)) fm ut =
      Document_init lib H (shift_val n1 (doc_text D)) (VStr (doc_id D))
        (shift_val n1 (score D)) (shift_val n1 (probability D)) (shift_val n1 (doc_question D))
        (shift_val n1 (meta D)) (shift_val n1 (embedding D)) VNone
        (if truthy H ut then ut else VNone)"
    unfolding from_dict_def dc
    by (simp only: prod.case Let_def di sum.case em ca construct_all_fields [OF ra])
qed

lemma read_empty_dict:
  "m < length h \<Longrightarrow> h ! m = ODict [] \<Longrightarrow>
   read_val n h (VRef m) = (case n of 0 \<Rightarrow> None | Suc k \<Rightarrow> Some (PDict []))"
  by (cases n) simp_all

lemma roundtrip_read:
  assumes c: "closed_store h" and ok: "doc_ok h D"
    and dk: "distinct (map fst fm)"
    and dj: "set (map fst fm) \<inter> set init_args = {}"
    and nm: "''meta'' \<notin> snd ` set fm"
  shows "\<exists>h1 D1. from_dict lib (fst (to_dict h D fm)) (snd (to_dict h D fm)) fm ut = (h1, Inr D1)
           \<and> (\<forall>n. read_doc n h1 D1 = read_doc n h D)"
proof -
  define n1 where "n1 = Suc (length h)"
  define r where "r = rename (invert_field_map fm)"
  define h1 where "h1 = h @ [ODict (map (\<lambda>(k, v). (r k, v)) (Document_dict D))]"
  define H where "H = h1 @ map (shift_obj n1) h1"
  note ft = from_dict_to_dict [OF dk dj nm n1_def r_def h1_def H_def]
  have l1: "length h1 = n1" by (simp add: h1_def n1_def)
  have vs: "list_all (val_lt (length h)) (map snd (Document_dict D))"
    using ok by (simp add: doc_ok_def)
  then have "list_all (\<lambda>kv. val_lt (length h) (snd kv)) (map (\<lambda>(k, v). (r k, v)) (Document_dict D))"
    by (simp add: list_all_iff split_beta)
  then have c1: "closed_store h1"
    unfolding h1_def by (rule closed_snoc [OF c])
  have rd: "read_val n (H @ ext) (shift_val n1 v) = read_val n h v" if v: "val_lt (length h) v" for n ext v
  proof -
    have v1: "val_lt (length h1) v"
      using val_lt_mono [OF v, of "length h1"] by (simp add: h1_def)
    have "read_val n (h1 @ map (shift_obj (length h1)) h1 @ ext) (shift_val (length h1) v) = read_val n h1 v"
      by (rule read_shift [OF c1 v1])
    also have "read_val n h1 v = read_val n h v"
      unfolding h1_def by (rule read_append [OF c v])
    finally show ?thesis by (simp add: H_def l1)
  qed
  have tm: "truthy H (shift_val n1 (meta D)) = truthy h (meta D)"
  proof -
    have v: "val_lt (length h) (meta D)" using vs by (simp add: Document_dict_def)
    have v1: "val_lt (length h1) (meta D)"
      using val_lt_mono [OF v, of "length h1"] by (simp add: h1_def)
    have "truthy (h1 @ map (shift_obj (length h1)) h1 @ []) (shift_val (length h1) (meta D))
        = truthy h1 (meta D)"
      by (rule truthy_shift [OF v1])
    also have "truthy h1 (meta D) = truthy h (meta D)"
      unfolding h1_def by (rule truthy_append [OF v])
    finally show ?thesis by (simp add: H_def l1)
  qed
  have fl: "val_lt (length h) (doc_text D)" "val_lt (length h) (score D)"
    "val_lt (length h) (probability D)" "val_lt (length h) (doc_question D)"
    "val_lt (length h) (meta D)" "val_lt (length h) (embedding D)"
    using vs by (simp_all add: Document_dict_def)
  show ?thesis
  proof (cases "truthy h (meta D)")
    case True
    let ?D1 = "\<lparr>doc_text = shift_val n1 (doc_text D), score = shift_val n1 (score D),
        probability = shift_val n1 (probability D),
        doc_question = shift_val n1 (doc_question D), meta = shift_val n1 (meta D),
        embedding = shift_val n1 (embedding D), doc_id = doc_id D\<rparr>"
    have res: "from_dict lib (fst (to_dict h D fm)) (snd (to_dict h D fm)) fm ut = (H, Inr ?D1)"
      unfolding ft(1) fst_conv snd_conv ft(2) Document_init_given_id using True tm by simp
    have "read_doc n H ?D1 = read_doc n h D" for n
      using fl rd [of _ n "[]"] by (simp add: read_doc_def Document_dict_def)
    then show ?thesis using res by blast
  next
    case False
    then obtain m where md: "meta D = VRef m" and hm: "h ! m = ODict []"
      using ok by (auto simp: doc_ok_def split: val.splits)
    have ml: "m < length h" using fl(5) md by (simp add: val_lt_def)
    let ?D1 = "\<lparr>doc_text = shift_val n1 (doc_text D), score = shift_val n1 (score D),
        probability = shift_val n1 (probability D),
        doc_question = shift_val n1 (doc_question D), meta = VRef (length H),
        embedding = shift_val n1 (embedding D), doc_id = doc_id D\<rparr>"
    have res: "from_dict lib (fst (to_dict h D fm)) (snd (to_dict h D fm)) fm ut
        = (H @ [ODict []], Inr ?D1)"
      unfolding ft(1) fst_conv snd_conv ft(2) Document_init_given_id using False tm by simp
    have rm: "read_val n (H @ [ODict []]) (VRef (length H)) = read_val n h (meta D)" for n
      unfolding md read_empty_dict [OF ml hm]
      by (rule read_empty_dict) simp_all
    have "read_doc n (H @ [ODict []]) ?D1 = read_doc n h D" for n
      using fl rd [of _ n "[ODict []]"] rm [of n] by (simp add: read_doc_def Document_dict_def)
    then show ?thesis using res by blast
  qed
qed

text \<open>Unknown keys are folded into \<^verbatim>\<open>meta\<close>.\<close>

lemma setitem_Inr:
  "setitem h x k v = Inr h1 \<Longrightarrow>
   \<exists>a its. x = VRef a \<and> a < length h \<and> h ! a = ODict its
     \<and> h1 = h[a := ODict (AList.update k v its)]"
  by (auto simp: setitem_def split: val.splits if_splits obj.splits)

lemma getitem_dict:
  "da < length h \<Longrightarrow> h ! da = ODict ditems \<Longrightarrow>
   getitem h (VRef da) k = (case map_of ditems k of None \<Rightarrow> Inl KeyError | Some v \<Rightarrow> Inr v)"
  by (simp add: getitem_def)

lemma copy_additional_folds:
  assumes "copy_additional fm (VRef da) kvs h = (h3, Inr u)"
    and "da < length h" "h ! da = ODict ditems" "map_of ditems ''meta'' = Some M"
    and "distinct (map fst ditems)" "set kvs \<subseteq> set ditems" "distinct (map fst kvs)"
  shows "length h3 = length h \<and> h3 ! da = ODict ditems
    \<and> (\<forall>kv \<in> set kvs. unknown fm (fst kv) \<longrightarrow>
          (\<exists>mm its3. M = VRef mm \<and> mm < length h3 \<and> h3 ! mm = ODict its3
             \<and> map_of its3 (fst kv) = Some (snd kv)))
    \<and> (\<forall>mm its k v. M = VRef mm \<and> mm < length h \<and> h ! mm = ODict its \<and> map_of its k = Some v
          \<and> k \<notin> fst ` set kvs
          \<longrightarrow> (\<exists>its3. h3 ! mm = ODict its3 \<and> map_of its3 k = Some v))"
  using assms
proof (induction kvs arbitrary: h)
  case Nil
  then show ?case by simp
next
  case (Cons kv kvs)
  obtain k v where kv: "kv = (k, v)" by (cases kv)
  have sub: "set kvs \<subseteq> set ditems" and dis: "distinct (map fst kvs)"
    and kn: "k \<notin> fst ` set kvs" and kin: "(k, v) \<in> set ditems"
    using Cons.prems(6,7) kv by auto
  have gm: "getitem h (VRef da) ''meta'' = Inr M"
    using getitem_dict [OF Cons.prems(2,3), of "''meta''"] Cons.prems(4) by simp
  show ?case
  proof (cases "unknown fm k")
    case False
    then have nu: "\<not> (k \<notin> set init_args \<and> k \<notin> fst ` set fm)"
      by (simp add: unknown_def)
    have c: "copy_additional fm (VRef da) kvs h = (h3, Inr u)"
      using Cons.prems(1) unfolding kv copy_additional.simps if_not_P [OF nu] .
    note ih = Cons.IH [OF c Cons.prems(2,3,4,5) sub dis]
    show ?thesis
      using ih False kv by auto
  next
    case True
    then have un: "k \<notin> set init_args \<and> k \<notin> fst ` set fm" by (simp add: unknown_def)
    obtain h1 where s1: "setitem h M k v = Inr h1"
      and c: "copy_additional fm (VRef da) kvs h1 = (h3, Inr u)"
      using Cons.prems(1) kv un gm by (auto split: sum.splits)
    obtain mm its where M: "M = VRef mm" and ml: "mm < length h" and hm: "h ! mm = ODict its"
      and h1: "h1 = h[mm := ODict (AList.update k v its)]"
      using setitem_Inr [OF s1] by blast
    have l1: "length h1 = length h" by (simp add: h1)
    have d1: "h1 ! da = ODict ditems"
    proof (cases "mm = da")
      case True
      then have "its = ditems" using hm Cons.prems(3) by simp
      moreover have "map_of ditems k = Some v" using kin Cons.prems(5) by simp
      ultimately show ?thesis using True ml by (simp add: h1 AList.update_triv)
    next
      case False
      then show ?thesis using Cons.prems(3) by (simp add: h1)
    qed
    have m1: "h1 ! mm = ODict (AList.update k v its)" using ml by (simp add: h1)
    have dl: "da < length h1" using Cons.prems(2) l1 by simp
    note ih = Cons.IH [OF c dl d1 Cons.prems(4,5) sub dis]
    have ih3: "\<exists>its3. h3 ! mm = ODict its3 \<and> map_of its3 kk = Some vv"
      if "map_of (AList.update k v its) kk = Some vv" "kk \<notin> fst ` set kvs" for kk vv
      using ih [THEN conjunct2, THEN conjunct2, THEN conjunct2, rule_format,
          of mm "AList.update k v its" kk vv] M ml l1 m1 that
      by simp
    have keep: "\<exists>its3. h3 ! mm = ODict its3 \<and> map_of its3 k = Some v"
      by (rule ih3 [OF _ kn]) (simp add: AList.update_conv')
    have p1: "length h3 = length h \<and> h3 ! da = ODict ditems" using ih l1 by simp
    have p2: "\<forall>kv \<in> set (kv # kvs). unknown fm (fst kv) \<longrightarrow>
          (\<exists>mm its3. M = VRef mm \<and> mm < length h3 \<and> h3 ! mm = ODict its3
             \<and> map_of its3 (fst kv) = Some (snd kv))"
      using ih keep M ml l1 kv by auto
    have p3: "\<forall>mm its k v. M = VRef mm \<and> mm < length h \<and> h ! mm = ODict its
          \<and> map_of its k = Some v \<and> k \<notin> fst ` set (kv # kvs)
          \<longrightarrow> (\<exists>its3. h3 ! mm = ODict its3 \<and> map_of its3 k = Some v)"
    proof (intro allI impI)
      fix mm' its' k' v'
      assume a: "M = VRef mm' \<and> mm' < length h \<and> h ! mm' = ODict its' \<and> map_of its' k' = Some v'
          \<and> k' \<notin> fst ` set (kv # kvs)"
      then have e: "mm' = mm" "its' = its" using M hm by auto
      have "k' \<noteq> k" "k' \<notin> fst ` set kvs" using a kv by auto
      moreover have "map_of (AList.update k v its) k' = Some v'"
        using a e \<open>k' \<noteq> k\<close> by (simp add: AList.update_conv')
      ultimately show "\<exists>its3. h3 ! mm' = ODict its3 \<and> map_of its3 k' = Some v'"
        using ih3 [of k' v'] e by simp
    qed
    show ?thesis using p1 p2 p3 by blast
  qed
qed

lemma remove_additional_no_meta:
  "''meta'' \<notin> snd ` set fm \<Longrightarrow> ''meta'' \<notin> fst ` set kvs
   \<Longrightarrow> map_of (remove_additional fm kvs acc) ''meta'' = map_of acc ''meta''"
proof (induction kvs arbitrary: acc)
  case Nil
  then show ?case by simp
next
  case (Cons kv kvs)
  obtain k v where kv: "kv = (k, v)" by (cases kv)
  have k: "k \<noteq> ''meta''" and r: "''meta'' \<notin> fst ` set kvs"
    using Cons.prems(2) kv by auto
  note ih = Cons.IH [OF Cons.prems(1) r]
  show ?case
  proof (cases "k \<in> set init_args")
    case True
    then show ?thesis using ih [of "AList.update k v acc"] k kv by (simp add: AList.update_conv')
  next
    case False
    show ?thesis
    proof (cases "map_of fm k")
      case None
      then show ?thesis using ih [of acc] False kv by simp
    next
      case (Some k1)
      then have "(k, k1) \<in> set fm" by (rule map_of_SomeD)
      then have "k1 \<in> snd ` set fm" by force
      with Cons.prems(1) have "k1 \<noteq> ''meta''" by blast
      then show ?thesis
        using ih [of "AList.update k1 v acc"] False kv Some by (simp add: AList.update_conv')
    qed
  qed
qed

lemma remove_additional_meta:
  "''meta'' \<notin> snd ` set fm \<Longrightarrow> distinct (map fst kvs) \<Longrightarrow> (''meta'', M) \<in> set kvs
   \<Longrightarrow> map_of (remove_additional fm kvs acc) ''meta'' = Some M"
proof (induction kvs arbitrary: acc)
  case Nil
  then show ?case by simp
next
  case (Cons kv kvs)
  obtain k v where kv: "kv = (k, v)" by (cases kv)
  have dis: "distinct (map fst kvs)" and kn: "k \<notin> fst ` set kvs"
    using Cons.prems(2) kv by auto
  show ?case
  proof (cases "k = ''meta''")
    case True
    then have v: "v = M" using Cons.prems(3) kv kn by force
    have "''meta'' \<notin> fst ` set kvs" using kn True by simp
    then have "map_of (remove_additional fm kvs (AList.update ''meta'' M acc)) ''meta''
        = map_of (AList.update ''meta'' M acc) ''meta''"
      by (rule remove_additional_no_meta [OF Cons.prems(1)])
    then show ?thesis using True v kv by (simp add: init_args_def AList.update_conv')
  next
    case False
    then have m: "(''meta'', M) \<in> set kvs" using Cons.prems(3) kv by auto
    note ih = Cons.IH [OF Cons.prems(1) dis m]
    show ?thesis
      using ih kv by (cases "map_of fm k") simp_all
  qed
qed

lemma Document_call_meta:
  assumes "Document_call lib h kwargs = (h1, Inr D1)" "map_of kwargs ''meta'' = Some M" "truthy h M"
  shows "h1 = h \<and> meta D1 = M"
proof -
  obtain tx where "Document_init lib h tx (kwarg kwargs ''id'') (kwarg kwargs ''score'')
      (kwarg kwargs ''probability'') (kwarg kwargs ''question'') (kwarg kwargs ''meta'')
      (kwarg kwargs ''embedding'') (kwarg kwargs ''id_hash_keys'') (kwarg kwargs ''uuid_type'')
      = (h1, Inr D1)"
    using assms(1) by (auto simp: Document_call_def split: if_splits option.splits)
  moreover have "kwarg kwargs ''meta'' = M" using assms(2) by (simp add: kwarg_def)
  ultimately show ?thesis
    using assms(3) by (auto simp: Document_init_def Let_def split: sum.splits)
qed

lemma construct_meta:
  assumes "construct lib h fm kvs ut = (h1, Inr D1)"
    and "''meta'' \<notin> snd ` set fm" "distinct (map fst kvs)" "(''meta'', M) \<in> set kvs" "truthy h M"
  shows "h1 = h \<and> meta D1 = M"
proof -
  define new_doc where "new_doc = remove_additional fm kvs []"
  define new_doc1 where "new_doc1 = (if truthy h ut then AList.update ''uuid_type'' ut new_doc
      else new_doc)"
  have "map_of new_doc ''meta'' = Some M"
    unfolding new_doc_def by (rule remove_additional_meta [OF assms(2,3,4)])
  then have m: "map_of new_doc1 ''meta'' = Some M"
    by (simp add: new_doc1_def AList.update_conv')
  have "Document_call lib h new_doc1 = (h1, Inr D1)"
    using assms(1) unfolding construct_def Let_def new_doc1_def new_doc_def .
  then show ?thesis by (rule Document_call_meta [OF _ m assms(5)])
qed

lemma ensure_meta_cases:
  assumes "da < length h" "h ! da = ODict ditems" "distinct (map fst ditems)"
    and "ensure_meta h (VRef da) ditems = Inr h2"
  shows "\<exists>ditems2 M. da < length h2 \<and> h2 ! da = ODict ditems2 \<and> distinct (map fst ditems2)
    \<and> set ditems \<subseteq> set ditems2 \<and> (''meta'', M) \<in> set ditems2"
proof (cases "''meta'' \<in> fst ` set ditems")
  case True
  then obtain M where "(''meta'', M) \<in> set ditems" by auto
  moreover have "h2 = h" using assms(4) True by (simp add: ensure_meta_def)
  ultimately show ?thesis using assms(1,2,3) by auto
next
  case False
  define h1 where "h1 = h @ [ODict []]"
  have s: "setitem h1 (VRef da) ''meta'' (VRef (length h)) = Inr h2"
    using assms(4) False by (simp add: ensure_meta_def alloc_def h1_def)
  have d1: "da < length h1" "h1 ! da = ODict ditems"
    using assms(1,2) by (simp_all add: h1_def nth_append)
  have h2: "h2 = h1[da := ODict (AList.update ''meta'' (VRef (length h)) ditems)]"
    using s d1 by (simp add: setitem_def)
  have u: "AList.update ''meta'' (VRef (length h)) ditems = ditems @ [(''meta'', VRef (length h))]"
    by (rule update_fresh [OF False])
  have "h2 ! da = ODict (ditems @ [(''meta'', VRef (length h))])"
    using d1(1) by (simp add: h2 u)
  moreover have "da < length h2" using d1(1) by (simp add: h2)
  moreover have "distinct (map fst (ditems @ [(''meta'', VRef (length h))]))"
    using assms(3) False by auto
  ultimately show ?thesis by auto
qed

lemma from_dict_folds:
  assumes res: "from_dict lib h (VRef a) fm ut = (h1, Inr D1)"
    and a: "a < length h" and o: "h ! a = ODict items"
    and dist: "distinct (map fst items)"
    and kv: "(k, v) \<in> set items" and un: "k \<notin> set init_args" "k \<notin> fst ` set fm"
    and nm: "''meta'' \<notin> snd ` set fm"
  shows "\<exists>m its. meta D1 = VRef m \<and> m < length h1 \<and> h1 ! m = ODict its
           \<and> map_of its k = Some (shift_val (length h) v)"
proof -
  define H where "H = h @ map (shift_obj (length h)) h"
  define da where "da = a + length h"
  define items0 where "items0 = map (\<lambda>(k, v). (k, shift_val (length h) v)) items"
  have dc: "deepcopy h (VRef a) = (H, VRef da)"
    by (simp add: deepcopy_def H_def da_def shift_val_simps)
  have dl: "da < length H" using a by (simp add: H_def da_def)
  have "H ! da = shift_obj (length h) (h ! a)"
    using copy_nth [OF a, of "[]"] by (simp add: H_def da_def)
  then have hd: "H ! da = ODict items0"
    by (simp add: o shift_obj_def items0_def)
  have di0: "dict_items H (VRef da) = Inr items0"
    using dl hd by (simp add: dict_items_def)
  have dist0: "distinct (map fst items0)"
    using dist by (simp add: items0_def split_beta comp_def)
  have kv0: "(k, shift_val (length h) v) \<in> set items0"
    using kv by (force simp: items0_def)
  obtain h2 where em: "ensure_meta H (VRef da) items0 = Inr h2"
    using res unfolding from_dict_def dc by (cases "ensure_meta H (VRef da) items0") (simp_all add: di0)
  obtain ditems M where d2: "da < length h2" "h2 ! da = ODict ditems"
    and dist2: "distinct (map fst ditems)" and sub: "set items0 \<subseteq> set ditems"
    and mm: "(''meta'', M) \<in> set ditems"
    using ensure_meta_cases [OF dl hd dist0 em] by blast
  have di2: "dict_items h2 (VRef da) = Inr ditems"
    using d2 by (simp add: dict_items_def)
  obtain h3 r where ca: "copy_additional fm (VRef da) ditems h2 = (h3, r)"
    by (cases "copy_additional fm (VRef da) ditems h2")
  obtain u where r: "r = Inr u"
    using res unfolding from_dict_def dc by (cases r) (simp_all add: di0 em di2 ca)
  have mo: "map_of ditems ''meta'' = Some M"
    using mm dist2 by simp
  note cf = copy_additional_folds [OF ca [unfolded r] d2 mo dist2 subset_refl dist2]
  have l3: "length h3 = length h2" and d3: "h3 ! da = ODict ditems"
    using cf by simp_all
  have "(k, shift_val (length h) v) \<in> set ditems" using kv0 sub by auto
  moreover have "unknown fm k" using un by (simp add: unknown_def)
  ultimately obtain m its where M: "M = VRef m" and ml: "m < length h3"
    and hm: "h3 ! m = ODict its" and mk: "map_of its k = Some (shift_val (length h) v)"
    using cf by force
  have di3: "dict_items h3 (VRef da) = Inr ditems"
    using d2(1) l3 d3 by (simp add: dict_items_def)
  have co: "construct lib h3 fm ditems ut = (h1, Inr D1)"
    using res unfolding from_dict_def dc by (simp add: di0 em di2 ca r di3)
  have "its \<noteq> []" using mk by auto
  then have tr: "truthy h3 M" using M ml hm by (simp add: truthy_def)
  have "h1 = h3 \<and> meta D1 = M"
    by (rule construct_meta [OF co nm dist2 mm tr])
  then show ?thesis using M ml hm mk by auto
qed

text \<open>
  C2, as the code has it. For a Document \<open>D\<close> as the constructor builds it and a field map
  none of whose keys is a recognized field name and which has no entry for \<^verbatim>\<open>meta\<close>,
  \<^verbatim>\<open>from_dict(to_dict(D, F), F)\<close> returns a Document that equals \<open>D\<close> field by field,
  \<^verbatim>\<open>meta\<close> included. And whenever \<^verbatim>\<open>from_dict\<close> builds a
  Document from a mapping under a field map with no entry for \<^verbatim>\<open>meta\<close>, every key of the
  mapping that is neither a recognized field nor a key of the field map is a key of the
  Document's \<^verbatim>\<open>meta\<close>, with the copy of its value.
\<close>

theorem serialization_roundtrip:
  "(closed_store h \<and> doc_ok h D \<and> distinct (map fst fm)
      \<and> set (map fst fm) \<inter> set init_args = {} \<and> ''meta'' \<notin> snd ` set fm
    \<longrightarrow> (\<exists>h1 D1. from_dict lib (fst (to_dict h D fm)) (snd (to_dict h D fm)) fm ut
                    = (h1, Inr D1)
                \<and> (\<forall>n. read_doc n h1 D1 = read_doc n h D)))
   \<and> (from_dict lib h (VRef a) fm ut = (h2, Inr D2) \<and> a < length h \<and> h ! a = ODict items
       \<and> distinct (map fst items) \<and> (k, v) \<in> set items \<and> k \<notin> set init_args
       \<and> k \<notin> fst ` set fm \<and> ''meta'' \<notin> snd ` set fm
    \<longrightarrow> (\<exists>m its. meta D2 = VRef m \<and> m < length h2 \<and> h2 ! m = ODict its
                \<and> map_of its k = Some (shift_val (length h) v)))"
  using roundtrip_read [of h D fm lib ut] from_dict_folds [of lib h a fm ut h2 D2 items k v]
  by blast

theorem serialization_roundtrip_witness:
  "closed_store example_store \<and> doc_ok example_store example_doc
   \<and> read_doc 2 example_store example_doc
     = [Some (PStr ''t''), Some (PInt 1), Some PNone, Some PNone,
        Some (PDict [(''a'', PStr ''1'')]), Some PNone, Some (PStr ''i'')]
   \<and> (\<exists>h1 D1. from_dict example_lib
           (fst (to_dict example_store example_doc [(''content'', ''text'')]))
           (snd (to_dict example_store example_doc [(''content'', ''text'')]))
           [(''content'', ''text'')] VNone = (h1, Inr D1)
         \<and> (\<forall>n. read_doc n h1 D1 = read_doc n example_store example_doc))
   \<and> snd (from_dict example_lib
        [ODict [(''text'', VStr ''t''), (''id'', VStr ''7''), (''meta'', VRef 1), (''x'', VInt 5)],
         ODict [(''a'', VStr ''1'')]]
        (VRef 0) [] VNone)
     = Inr \<lparr>doc_text = VStr ''t'', score = VNone, probability = VNone, doc_question = VNone,
          meta = VRef 3, embedding = VNone, doc_id = ''7''\<rparr>
   \<and> (\<exists>its. fst (from_dict example_lib
        [ODict [(''text'', VStr ''t''), (''id'', VStr ''7''), (''meta'', VRef 1), (''x'', VInt 5)],
         ODict [(''a'', VStr ''1'')]]
        (VRef 0) [] VNone) ! 3 = ODict its
      \<and> map_of its ''x'' = Some (VInt 5))"
proof -
  let ?h = "[ODict [(''text'', VStr ''t''), (''id'', VStr ''7''), (''meta'', VRef 1),
               (''x'', VInt 5)],
             ODict [(''a'', VStr ''1'')]]"
  let ?h2 = "[ODict [(''text'', VStr ''t''), (''id'', VStr ''7''), (''meta'', VRef 1),
                (''x'', VInt 5)],
              ODict [(''a'', VStr ''1'')],
              ODict [(''text'', VStr ''t''), (''id'', VStr ''7''), (''meta'', VRef 3),
                (''x'', VInt 5)],
              ODict [(''a'', VStr ''1''), (''x'', VInt 5)]]"
  let ?D2 = "\<lparr>doc_text = VStr ''t'', score = VNone, probability = VNone,
      doc_question = VNone, meta = VRef 3, embedding = VNone, doc_id = ''7''\<rparr>"
  have c: "closed_store example_store"
    by code_simp
  have d: "doc_ok example_store example_doc"
    by code_simp
  have r: "read_doc 2 example_store example_doc
     = [Some (PStr ''t''), Some (PInt 1), Some PNone, Some PNone,
        Some (PDict [(''a'', PStr ''1'')]), Some PNone, Some (PStr ''i'')]"
    by code_simp
  have f: "distinct (map fst [(''content'', ''text'')])
      \<and> set (map fst [(''content'', ''text'')]) \<inter> set init_args = {}
      \<and> ''meta'' \<notin> snd ` set [(''content'', ''text'')]"
    by (simp add: init_args_def)
  have e: "from_dict example_lib ?h (VRef 0) [] VNone = (?h2, Inr ?D2)"
    by code_simp
  have g: "0 < length ?h \<and> ?h ! 0 = ODict [(''text'', VStr ''t''), (''id'', VStr ''7''),
        (''meta'', VRef 1), (''x'', VInt 5)]
      \<and> distinct (map fst [(''text'', VStr ''t''), (''id'', VStr ''7''), (''meta'', VRef 1),
        (''x'', VInt 5)])
      \<and> (''x'', VInt 5) \<in> set [(''text'', VStr ''t''), (''id'', VStr ''7''), (''meta'', VRef 1),
        (''x'', VInt 5)]
      \<and> ''x'' \<notin> set init_args \<and> ''x'' \<notin> fst ` set ([] :: (string \<times> string) list)
      \<and> ''meta'' \<notin> snd ` set ([] :: (string \<times> string) list)"
    by (simp add: init_args_def)
  note t1 = serialization_roundtrip [where h = example_store and D = example_doc
      and fm = "[(''content'', ''text'')]" and lib = example_lib and ut = VNone, THEN conjunct1]
  note t2 = serialization_roundtrip [where h = ?h and a = 0 and fm = "[]" and lib = example_lib
      and ut = VNone and ?h2.0 = ?h2 and ?D2.0 = ?D2 and k = "''x''" and v = "VInt 5"
      and items = "[(''text'', VStr ''t''), (''id'', VStr ''7''), (''meta'', VRef 1),
        (''x'', VInt 5)]", THEN conjunct2]
  have p1: "\<exists>h1 D1. from_dict example_lib
           (fst (to_dict example_store example_doc [(''content'', ''text'')]))
           (snd (to_dict example_store example_doc [(''content'', ''text'')]))
           [(''content'', ''text'')] VNone = (h1, Inr D1)
         \<and> (\<forall>n. read_doc n h1 D1 = read_doc n example_store example_doc)"
    using t1 c d f by blast
  have "\<exists>m its. meta ?D2 = VRef m \<and> m < length ?h2 \<and> ?h2 ! m = ODict its
      \<and> map_of its ''x'' = Some (shift_val (length ?h) (VInt 5))"
    using t2 e g by blast
  then have p2: "\<exists>its. ?h2 ! 3 = ODict its \<and> map_of its ''x'' = Some (VInt 5)"
    by (simp add: shift_val_simps)
  have q1: "snd (from_dict example_lib ?h (VRef 0) [] VNone) = Inr ?D2"
    unfolding e snd_conv ..
  have q2: "\<exists>its. fst (from_dict example_lib ?h (VRef 0) [] VNone) ! 3 = ODict its
      \<and> map_of its ''x'' = Some (VInt 5)"
    unfolding e fst_conv by (rule p2)
  show ?thesis
    using c d r p1 q1 q2 by blast
qed

text \<open>
  The claim as stated fails on three inputs. With the field map \<^verbatim>\<open>{"m": "meta"}\<close> the round
  trip loses \<^verbatim>\<open>meta\<close>: the default \<^verbatim>\<open>_doc["meta"] = {}\<close> comes last in \<^verbatim>\<open>_doc\<close> and
  overwrites the renamed entry. With \<^verbatim>\<open>{"text": "question"}\<close>, whose key is a field name,
  \<^verbatim>\<open>to_dict\<close> writes the question over the text. And under \<^verbatim>\<open>{"m": "meta"}\<close> the unknown key
  \<^verbatim>\<open>x\<close> of a mapping is folded into an object the Document does not keep.
\<close>

theorem serialization_roundtrip_counterexample:
  "snd (from_dict example_lib
       (fst (to_dict example_store example_doc [(''m'', ''meta'')]))
       (snd (to_dict example_store example_doc [(''m'', ''meta'')]))
       [(''m'', ''meta'')] VNone)
     = Inr \<lparr>doc_text = VStr ''t'', score = VInt 1, probability = VNone, doc_question = VNone,
          meta = VRef 5, embedding = VNone, doc_id = ''i''\<rparr>
   \<and> read_val 2 (fst (from_dict example_lib
       (fst (to_dict example_store example_doc [(''m'', ''meta'')]))
       (snd (to_dict example_store example_doc [(''m'', ''meta'')]))
       [(''m'', ''meta'')] VNone)) (VRef 5) = Some (PDict [])
   \<and> read_val 2 example_store (meta example_doc) = Some (PDict [(''a'', PStr ''1'')])
   \<and> snd (from_dict example_lib
       (fst (to_dict example_store example_doc [(''text'', ''question'')]))
       (snd (to_dict example_store example_doc [(''text'', ''question'')]))
       [(''text'', ''question'')] VNone)
     = Inr \<lparr>doc_text = VNone, score = VInt 1, probability = VNone, doc_question = VNone,
          meta = VRef 2, embedding = VNone, doc_id = ''i''\<rparr>
   \<and> doc_text example_doc = VStr ''t''
   \<and> snd (from_dict example_lib example_mapping (VRef 0) [(''m'', ''meta'')] VNone)
     = Inr \<lparr>doc_text = VStr ''t'', score = VNone, probability = VNone, doc_question = VNone,
          meta = VRef 5, embedding = VNone, doc_id = ''7''\<rparr>
   \<and> fst (from_dict example_lib example_mapping (VRef 0) [(''m'', ''meta'')] VNone) ! 5
     = ODict [(''a'', VStr ''1'')]"
  by code_simp

section \<open>Duplicate handling of the document store\<close>

lemma drop_duplicates_seen_subseq: "subseq (drop_duplicates_seen seen ds) ds"
  by (induction ds arbitrary: seen) auto

lemma drop_duplicates_seen_ids:
  "set (map doc_id (drop_duplicates_seen seen ds)) = set (map doc_id ds) - set seen"
  by (induction ds arbitrary: seen) auto

lemma drop_duplicates_seen_distinct: "distinct (map doc_id (drop_duplicates_seen seen ds))"
proof (induction ds arbitrary: seen)
  case Nil
  show ?case by simp
next
  case (Cons d ds)
  have "doc_id d \<notin> set (map doc_id (drop_duplicates_seen (doc_id d # seen) ds))"
    unfolding drop_duplicates_seen_ids by simp
  then show ?case using Cons.IH by simp
qed

lemma drop_duplicates_seen_first:
  "d \<in> set (drop_duplicates_seen seen ds) \<Longrightarrow> find (\<lambda>e. doc_id e = doc_id d) ds = Some d"
proof (induction ds arbitrary: seen)
  case Nil
  then show ?case by simp
next
  case (Cons x ds)
  show ?case
  proof (cases "doc_id x \<in> set seen")
    case True
    then have m: "d \<in> set (drop_duplicates_seen seen ds)" using Cons.prems by simp
    then have "doc_id d \<in> set (map doc_id (drop_duplicates_seen seen ds))" by simp
    then have "doc_id d \<notin> set seen" unfolding drop_duplicates_seen_ids by simp
    then have "doc_id x \<noteq> doc_id d" using True by auto
    then show ?thesis using Cons.IH [OF m] by simp
  next
    case False
    show ?thesis
    proof (cases "d = x")
      case True
      then show ?thesis by simp
    next
      case neq: False
      then have m: "d \<in> set (drop_duplicates_seen (doc_id x # seen) ds)"
        using Cons.prems False by simp
      then have "doc_id d \<in> set (map doc_id (drop_duplicates_seen (doc_id x # seen) ds))"
        by simp
      then have "doc_id d \<noteq> doc_id x" unfolding drop_duplicates_seen_ids by simp
      then show ?thesis using Cons.IH [OF m] by simp
    qed
  qed
qed






lemma drop_duplicate_documents_spec:
  "subseq (drop_duplicate_documents ds) ds
   \<and> distinct (map doc_id (drop_duplicate_documents ds))
   \<and> set (map doc_id (drop_duplicate_documents ds)) = set (map doc_id ds)
   \<and> (\<forall>d \<in> set (drop_duplicate_documents ds). find (\<lambda>e. doc_id e = doc_id d) ds = Some d)"
  unfolding drop_duplicate_documents_def
  using drop_duplicates_seen_subseq [of "[]" ds] drop_duplicates_seen_distinct [of "[]" ds]
    drop_duplicates_seen_ids [of "[]" ds] drop_duplicates_seen_first [of _ "[]" ds]
  by simp

lemma ids_filter:
  "set (map doc_id (filter (\<lambda>doc. doc_id doc \<notin> F) xs)) = set (map doc_id xs) - F"
  by auto


lemma handle_skip:
  assumes "get_documents_by_id self (map doc_id (drop_duplicate_documents docs))
             (or_else ix (index self)) = Inr found"
  shows "handle_duplicate_documents self docs ix (Some ''skip'') =
     Inr (filter (\<lambda>doc. doc_id doc \<notin> set (map doc_id found)) (drop_duplicate_documents docs))"
  using assms by (simp add: handle_duplicate_documents_def Let_def)



text \<open>
  C4. Under the policy \<^verbatim>\<open>skip\<close>, with \<open>found\<close> the documents \<^verbatim>\<open>get_documents_by_id\<close> reports:
  no error is raised, and the documents returned are the documents of the batch, each id
  once (its first document, in input order), whose id is not the id of a document found.
  In particular a batch of two documents with one id, which the lookup does not report,
  yields exactly one document.
\<close>

theorem skip_policy_filters:
  assumes "get_documents_by_id self (map doc_id (drop_duplicate_documents docs))
             (or_else ix (index self)) = Inr found"
  shows "\<exists>r. handle_duplicate_documents self docs ix (Some ''skip'') = Inr r
     \<and> r = filter (\<lambda>doc. doc_id doc \<notin> set (map doc_id found)) (drop_duplicate_documents docs)
     \<and> subseq r docs
     \<and> distinct (map doc_id r)
     \<and> set (map doc_id r) = set (map doc_id docs) - set (map doc_id found)
     \<and> (\<forall>d \<in> set r. find (\<lambda>e. doc_id e = doc_id d) docs = Some d)
     \<and> (\<forall>d1 d2. docs = [d1, d2] \<and> doc_id d1 = doc_id d2
           \<and> doc_id d1 \<notin> set (map doc_id found) \<longrightarrow> r = [d1])"
proof -
  define dd where "dd = drop_duplicate_documents docs"
  define r where "r = filter (\<lambda>doc. doc_id doc \<notin> set (map doc_id found)) dd"
  note sp = drop_duplicate_documents_spec [of docs, folded dd_def]
  have a: "handle_duplicate_documents self docs ix (Some ''skip'') = Inr r"
    unfolding r_def dd_def by (rule handle_skip [OF assms])
  have b: "subseq r docs"
    using sp subseq_order.order_trans [of r dd docs] by (simp add: r_def)
  have c: "distinct (map doc_id r)"
    using sp by (simp add: r_def distinct_map_filter)
  have d: "set (map doc_id r) = set (map doc_id docs) - set (map doc_id found)"
    unfolding r_def ids_filter using sp by simp
  have e: "\<forall>d \<in> set r. find (\<lambda>e. doc_id e = doc_id d) docs = Some d"
    using sp by (simp add: r_def)
  have f: "r = [d1]"
    if "docs = [d1, d2] \<and> doc_id d1 = doc_id d2 \<and> doc_id d1 \<notin> set (map doc_id found)"
    for d1 d2
    using that by (auto simp: r_def dd_def drop_duplicate_documents_def)
  show ?thesis
    using a b c d e f unfolding r_def dd_def by blast
qed

theorem skip_policy_filters_witness:
  "get_documents_by_id (store_of [doc_of ''c'' ''other''])
       (map doc_id (drop_duplicate_documents [doc_of ''a'' ''one'', doc_of ''a'' ''two'']))
       (or_else None (index (store_of [doc_of ''c'' ''other''])))
     = Inr []
   \<and> handle_duplicate_documents (store_of [doc_of ''c'' ''other''])
       [doc_of ''a'' ''one'', doc_of ''a'' ''two''] None (Some ''skip'')
     = Inr [doc_of ''a'' ''one'']"
proof -
  have l: "get_documents_by_id (store_of [doc_of ''c'' ''other''])
       (map doc_id (drop_duplicate_documents [doc_of ''a'' ''one'', doc_of ''a'' ''two'']))
       (or_else None (index (store_of [doc_of ''c'' ''other''])))
     = Inr []"
    by (simp add: store_of_def doc_of_def drop_duplicate_documents_def or_else_def)
  have i: "doc_id (doc_of ''a'' ''one'') = doc_id (doc_of ''a'' ''two'')"
    by (simp add: doc_of_def)
  show ?thesis
    using l i skip_policy_filters [OF l] by auto
qed



end
